theory Spec2Isabelle
  imports Main
begin

section \<open>The ZIP classifier of \<^verbatim>\<open>vendor_intake/utils/zip_state_mapper.py\<close>\<close>

text \<open>
  A shallow embedding of the class \<^verbatim>\<open>ZipCodeMapper\<close>. Python strings are modelled as
  \<^typ>\<open>string\<close>; a \<^typ>\<open>char\<close> stands for the code point of the same number, so the
  model covers the strings over the code points 0 to 255. The character classes below
  are the ones Python uses on that range.
\<close>

subsection \<open>Character classes\<close>

definition code :: "char \<Rightarrow> nat" where
  "code c = of_char c"

text \<open>\<^verbatim>\<open>\d\<close> of the module \<^verbatim>\<open>re\<close> on a \<^verbatim>\<open>str\<close> pattern: the decimal digits.\<close>

definition re_digit :: "char \<Rightarrow> bool" where
  "re_digit c \<longleftrightarrow> 48 \<le> code c \<and> code c \<le> 57"

text \<open>\<^verbatim>\<open>\s\<close>, which is also what \<^verbatim>\<open>str.strip()\<close> removes and \<^verbatim>\<open>str.isspace()\<close> accepts.\<close>

definition re_space :: "char \<Rightarrow> bool" where
  "re_space c \<longleftrightarrow> (9 \<le> code c \<and> code c \<le> 13) \<or> (28 \<le> code c \<and> code c \<le> 32)
     \<or> code c = 133 \<or> code c = 160"

text \<open>\<^verbatim>\<open>\w\<close>: alphanumeric characters and the underscore.\<close>

definition re_word :: "char \<Rightarrow> bool" where
  "re_word c \<longleftrightarrow> (48 \<le> code c \<and> code c \<le> 57) \<or> (65 \<le> code c \<and> code c \<le> 90)
     \<or> code c = 95 \<or> (97 \<le> code c \<and> code c \<le> 122)
     \<or> code c = 170 \<or> code c = 178 \<or> code c = 179 \<or> code c = 181
     \<or> code c = 185 \<or> code c = 186 \<or> (188 \<le> code c \<and> code c \<le> 190)
     \<or> (192 \<le> code c \<and> code c \<le> 214) \<or> (216 \<le> code c \<and> code c \<le> 246)
     \<or> 248 \<le> code c"

text \<open>The characters \<^verbatim>\<open>str.isdigit()\<close> accepts: the decimal digits and the superscripts
  one, two and three.\<close>

definition digit_char :: "char \<Rightarrow> bool" where
  "digit_char c \<longleftrightarrow> re_digit c \<or> code c = 178 \<or> code c = 179 \<or> code c = 185"

definition isdigit :: "string \<Rightarrow> bool" where
  "isdigit s \<longleftrightarrow> s \<noteq> [] \<and> list_all digit_char s"

definition strip :: "string \<Rightarrow> string" where
  "strip s = rev (dropWhile re_space (rev (dropWhile re_space s)))"

subsection \<open>\<^verbatim>\<open>int(str)\<close>\<close>

text \<open>
  \<^verbatim>\<open>int(s)\<close> in base ten: surrounding whitespace is dropped, one sign is allowed, and
  the digits may be grouped by single underscores; anything else raises
  \<^verbatim>\<open>ValueError\<close>, which is \<open>None\<close> here. The whitespace \<^verbatim>\<open>int\<close> drops is narrower than
  \<^verbatim>\<open>\s\<close>: it leaves the separators 28 to 31 in place. The limit that newer interpreters
  put on the number of digits is left out: \<^verbatim>\<open>validate_zip_code\<close> passes five characters.
\<close>

definition int_space :: "char \<Rightarrow> bool" where
  "int_space c \<longleftrightarrow> (9 \<le> code c \<and> code c \<le> 13) \<or> code c = 32 \<or> code c = 133 \<or> code c = 160"

definition digit_val :: "char \<Rightarrow> nat" where
  "digit_val c = code c - 48"

fun int_body :: "nat \<Rightarrow> string \<Rightarrow> nat option" where
  "int_body acc [] = Some acc"
| "int_body acc [c] = (if re_digit c then Some (10 * acc + digit_val c) else None)"
| "int_body acc (c # d # ds) =
     (if re_digit c then int_body (10 * acc + digit_val c) (d # ds)
      else if c = CHR ''_'' \<and> re_digit d then int_body (10 * acc + digit_val d) ds
      else None)"

definition int_unsigned :: "string \<Rightarrow> nat option" where
  "int_unsigned s = (case s of [] \<Rightarrow> None
     | d # ds \<Rightarrow> if re_digit d then int_body (digit_val d) ds else None)"

definition py_int :: "string \<Rightarrow> int option" where
  "py_int s =
     (let t = rev (dropWhile int_space (rev (dropWhile int_space s)))
      in case t of [] \<Rightarrow> None
         | c # cs \<Rightarrow>
             if c = CHR ''-'' then map_option (\<lambda>n. - int n) (int_unsigned cs)
             else if c = CHR ''+'' then map_option int (int_unsigned cs)
             else map_option int (int_unsigned t))"

subsection \<open>The classifier's state\<close>

record mapper =
  zip_to_state_map :: "string \<rightharpoonup> string"
  zip_database_path :: "string option"

subsection \<open>\<^verbatim>\<open>validate_zip_code\<close>\<close>

text \<open>
  \<^verbatim>\<open>re.match(r'^\d{5}(?:-\d{4})?$', zip_code)\<close>. Without the flag \<^verbatim>\<open>MULTILINE\<close>, \<^verbatim>\<open>$\<close>
  matches at the end of the string and also just before a newline that ends the string.
  The optional group is tried first; when the rest of the pattern fails after it, the
  match is retried without the group.
\<close>

definition at_dollar :: "string \<Rightarrow> bool" where
  "at_dollar rest \<longleftrightarrow> rest = [] \<or> rest = [CHR 0x0A]"

definition digits_prefix :: "nat \<Rightarrow> string \<Rightarrow> bool" where
  "digits_prefix n s \<longleftrightarrow> n \<le> length s \<and> list_all re_digit (take n s)"

definition zip_pattern_match :: "string \<Rightarrow> bool" where
  "zip_pattern_match s \<longleftrightarrow>
     digits_prefix 5 s \<and>
     (let r = drop 5 s
      in (case r of [] \<Rightarrow> False
          | c # r' \<Rightarrow> c = CHR ''-'' \<and> digits_prefix 4 r' \<and> at_dollar (drop 4 r'))
         \<or> at_dollar r)"

definition is_in_valid_range :: "string \<Rightarrow> bool" where
  "is_in_valid_range zip_base =
     (case py_int zip_base of None \<Rightarrow> False | Some zip_num \<Rightarrow> 0 < zip_num \<and> zip_num < 100000)"

definition validate_zip_code :: "mapper \<Rightarrow> string \<Rightarrow> bool" where
  "validate_zip_code self zip_code =
     (if \<not> zip_pattern_match zip_code then False
      else let base_zip = take 5 zip_code
           in zip_to_state_map self base_zip \<noteq> None \<or> is_in_valid_range base_zip)"

subsection \<open>\<^verbatim>\<open>get_state_for_zip\<close>\<close>

text \<open>\<^verbatim>\<open>s.split(sep)\<close> for a separator of one character; the result is never empty.\<close>

fun py_split :: "char \<Rightarrow> string \<Rightarrow> string list" where
  "py_split sep [] = [[]]"
| "py_split sep (c # cs) =
     (if c = sep then [] # py_split sep cs
      else (case py_split sep cs of [] \<Rightarrow> [[c]] | t # ts \<Rightarrow> (c # t) # ts))"

definition get_state_for_zip :: "mapper \<Rightarrow> string \<Rightarrow> string option" where
  "get_state_for_zip self zip_code =
     (let base_zip = hd (py_split CHR ''-'' zip_code)
      in zip_to_state_map self base_zip)"

subsection \<open>Extracting candidates from free text\<close>

text \<open>
  \<^verbatim>\<open>\b\<close> holds between two positions when exactly one of the characters at its sides is a
  word character; the outside of the string counts as a non-word character. The matcher
  sees the character before the current position (\<open>None\<close> at the start of the text) and
  the text from the current position on.
\<close>

definition word_boundary :: "char option \<Rightarrow> string \<Rightarrow> bool" where
  "word_boundary prev rest \<longleftrightarrow>
     (case prev of None \<Rightarrow> False | Some c \<Rightarrow> re_word c)
       \<noteq> (case rest of [] \<Rightarrow> False | c # _ \<Rightarrow> re_word c)"

text \<open>
  One attempt of \<^verbatim>\<open>\b\d{5}(?:-\d{4})?\b\<close> at the current position, giving the length
  of the match. The optional group is greedy: the ten-character match is tried first, and
  the five-character one only when the long one fails.
\<close>

definition zip_match_here :: "char option \<Rightarrow> string \<Rightarrow> nat option" where
  "zip_match_here prev s =
     (if word_boundary prev s \<and> digits_prefix 5 s then
        (let r = drop 5 s
         in if (case r of [] \<Rightarrow> False
                | c # r' \<Rightarrow> c = CHR ''-'' \<and> digits_prefix 4 r'
                            \<and> word_boundary (Some (r' ! 3)) (drop 4 r'))
            then Some 10
            else if word_boundary (Some (s ! 4)) r then Some 5
            else None)
      else None)"

text \<open>
  \<^verbatim>\<open>re.findall\<close>: the text is scanned from left to right; a match is collected and the
  scan goes on behind it, otherwise the scan moves one character on.
\<close>

function findall_zip :: "char option \<Rightarrow> string \<Rightarrow> string list" where
  "findall_zip prev [] = []"
| "findall_zip prev (c # cs) =
     (case zip_match_here prev (c # cs) of
        Some n \<Rightarrow> take n (c # cs) # findall_zip (Some ((c # cs) ! (n - 1))) (drop n (c # cs))
      | None \<Rightarrow> findall_zip (Some c) cs)"
  by pat_completeness auto
termination
  by (relation "measure (\<lambda>(prev, s). length s)")
     (auto simp: zip_match_here_def Let_def split: if_splits)

definition re_findall_zip :: "string \<Rightarrow> string list" where
  "re_findall_zip s = findall_zip None s"

text \<open>The character class \<^verbatim>\<open>[,;\s\n]\<close> and \<^verbatim>\<open>re.split(r'[,;\s\n]+', s)\<close>.\<close>

definition split_sep :: "char \<Rightarrow> bool" where
  "split_sep c \<longleftrightarrow> c = CHR '','' \<or> c = CHR '';'' \<or> re_space c \<or> c = CHR 0x0A"

function re_split_seps :: "string \<Rightarrow> string list" where
  "re_split_seps s =
     (let tok = takeWhile (\<lambda>c. \<not> split_sep c) s;
          rest = dropWhile (\<lambda>c. \<not> split_sep c) s
      in if rest = [] then [tok] else tok # re_split_seps (dropWhile split_sep rest))"
  by pat_completeness auto
termination
proof (relation "measure length", goal_cases)
  case 1
  show ?case by simp
next
  case (2 s tok rest)
  from 2 have "rest \<noteq> []" by simp
  then obtain c cs where rest: "rest = c # cs" by (cases rest) auto
  with 2 have "split_sep c"
    by (metis hd_dropWhile list.sel(1))
  then have "length (dropWhile split_sep rest) \<le> length cs"
    by (simp add: rest length_dropWhile_le)
  moreover have "length rest \<le> length s"
    using 2 by (simp add: length_dropWhile_le)
  ultimately show ?case by (simp add: rest)
qed

declare re_split_seps.simps [simp del]

subsection \<open>\<^verbatim>\<open>process_zip_codes\<close>\<close>

datatype zip_input = Text string | Zips "string list"

text \<open>
  The returned dictionary keeps its keys in the order of insertion, so it is an association
  list with distinct keys. \<open>setdefault_empty\<close> is \<^verbatim>\<open>if state not in result: result[state] = []\<close>
  and \<open>append_to\<close> is \<^verbatim>\<open>result[state].append(zip_code)\<close>, which always finds the key
  that the statement before it has made sure of.
\<close>

type_synonym state_groups = "(string \<times> string list) list"

definition setdefault_empty :: "string \<Rightarrow> state_groups \<Rightarrow> state_groups" where
  "setdefault_empty state result =
     (if state \<in> fst ` set result then result else result @ [(state, [])])"

fun append_to :: "string \<Rightarrow> string \<Rightarrow> state_groups \<Rightarrow> state_groups" where
  "append_to state zip_code [] = []"
| "append_to state zip_code ((k, zs) # rest) =
     (if k = state then (k, zs @ [zip_code]) # rest
      else (k, zs) # append_to state zip_code rest)"

text \<open>The loop over the candidates, on the pair of \<^verbatim>\<open>result\<close> and \<^verbatim>\<open>invalid_zips\<close>.\<close>

fun classify :: "mapper \<Rightarrow> string list \<Rightarrow> state_groups \<times> string list
    \<Rightarrow> state_groups \<times> string list" where
  "classify self [] acc = acc"
| "classify self (zip_code # rest) (result, invalid_zips) =
     (if \<not> validate_zip_code self zip_code
      then classify self rest (result, invalid_zips @ [zip_code])
      else (case get_state_for_zip self zip_code of
              None \<Rightarrow> classify self rest (result, invalid_zips @ [zip_code])
            | Some state \<Rightarrow>
                if state \<noteq> []
                then classify self rest
                       (append_to state zip_code (setdefault_empty state result), invalid_zips)
                else classify self rest (result, invalid_zips @ [zip_code])))"

definition fallback_tokens :: "string \<Rightarrow> string list" where
  "fallback_tokens s =
     map strip (filter (\<lambda>z. strip z \<noteq> [] \<and> isdigit (strip z)) (re_split_seps s))"

definition candidates :: "zip_input \<Rightarrow> string list" where
  "candidates zip_codes =
     (let zip_list = (case zip_codes of Text s \<Rightarrow> re_findall_zip s | Zips l \<Rightarrow> l)
      in case zip_codes of
           Text s \<Rightarrow> if zip_list = [] then fallback_tokens s else zip_list
         | Zips l \<Rightarrow> zip_list)"

definition process_zip_codes :: "mapper \<Rightarrow> zip_input \<Rightarrow> state_groups" where
  "process_zip_codes self zip_codes = fst (classify self (candidates zip_codes) ([], []))"

text \<open>The ZIP codes the call reports in its log as unprocessed.\<close>

definition unprocessed_zips :: "mapper \<Rightarrow> zip_input \<Rightarrow> string list" where
  "unprocessed_zips self zip_codes = snd (classify self (candidates zip_codes) ([], []))"

text \<open>
  The call as the interpreter runs it. Besides the object \<^verbatim>\<open>self\<close> the method touches one
  piece of state, the module's \<^verbatim>\<open>logger\<close>: every statement below starts from the world the
  statement before it left, reads \<^verbatim>\<open>self\<close> from that world, and \<^verbatim>\<open>logger.warning\<close> adds a
  record to the log.
\<close>

datatype level = Info | Warning | Error

record world =
  mapper_obj :: mapper
  log_records :: "(level \<times> string) list"

definition logger_warning :: "string \<Rightarrow> world \<Rightarrow> world" where
  "logger_warning msg w = w\<lparr>log_records := log_records w @ [(Warning, msg)]\<rparr>"

text \<open>\<^verbatim>\<open>sep.join(xs)\<close>.\<close>

fun py_join :: "string \<Rightarrow> string list \<Rightarrow> string" where
  "py_join sep [] = []"
| "py_join sep [x] = x"
| "py_join sep (x # y # ys) = x @ sep @ py_join sep (y # ys)"

fun run_loop :: "string list \<Rightarrow> state_groups \<times> string list \<Rightarrow> world
    \<Rightarrow> (state_groups \<times> string list) \<times> world" where
  "run_loop [] acc w = (acc, w)"
| "run_loop (zip_code # rest) (result, invalid_zips) w =
     (if \<not> validate_zip_code (mapper_obj w) zip_code
      then run_loop rest (result, invalid_zips @ [zip_code])
             (logger_warning (''Invalid ZIP code format: '' @ zip_code) w)
      else (case get_state_for_zip (mapper_obj w) zip_code of
              None \<Rightarrow>
                run_loop rest (result, invalid_zips @ [zip_code])
                  (logger_warning (''Could not determine state for ZIP code: '' @ zip_code) w)
            | Some state \<Rightarrow>
                if state \<noteq> []
                then run_loop rest
                       (append_to state zip_code (setdefault_empty state result), invalid_zips) w
                else run_loop rest (result, invalid_zips @ [zip_code])
                       (logger_warning
                          (''Could not determine state for ZIP code: '' @ zip_code) w)))"

definition call_process_zip_codes :: "zip_input \<Rightarrow> world \<Rightarrow> state_groups \<times> world" where
  "call_process_zip_codes zip_codes w =
     (case run_loop (candidates zip_codes) ([], []) w of
        ((result, invalid_zips), w') \<Rightarrow>
          (result,
           if invalid_zips \<noteq> []
           then logger_warning (''Unprocessed ZIP codes: '' @ py_join '', '' invalid_zips) w'
           else w'))"

subsection \<open>Loading the database\<close>

text \<open>
  A row of \<^verbatim>\<open>csv.DictReader\<close> maps a column name to the cell of that column; a cell the
  row does not have reads as \<^verbatim>\<open>None\<close>. \<open>py_or\<close> is the operator \<^verbatim>\<open>or\<close> on such cells,
  where \<^verbatim>\<open>None\<close> and the empty string count as false.
\<close>

type_synonym csv_row = "string \<rightharpoonup> string"

definition truthy :: "string option \<Rightarrow> bool" where
  "truthy v \<longleftrightarrow> v \<noteq> None \<and> v \<noteq> Some []"

definition py_or :: "string option \<Rightarrow> string option \<Rightarrow> string option" where
  "py_or a b = (if truthy a then a else b)"

text \<open>
  What the loader sees of the file system: which paths exist, the rows that reading the
  file at a path yields, whether opening or reading that file raises (after those rows),
  and whether \<^verbatim>\<open>os.makedirs\<close> raises.
\<close>

record file_system =
  path_exists :: "string \<Rightarrow> bool"
  csv_rows :: "string \<Rightarrow> csv_row list"
  csv_raises :: "string \<Rightarrow> bool"
  makedirs_raises :: bool

text \<open>A method either returns or raises; both leave the object in some state.\<close>

datatype 'a outcome = Returned 'a | Raised 'a

definition insert_row :: "mapper \<Rightarrow> csv_row \<Rightarrow> mapper" where
  "insert_row self row =
     (let zip_code = py_or (py_or (row ''zip_code'') (row ''zipcode'')) (row ''ZIP'');
          state = py_or (py_or (row ''state'') (row ''STATE'')) (row ''state_abbr'')
      in if truthy zip_code \<and> truthy state
         then self\<lparr>zip_to_state_map := (zip_to_state_map self)(the zip_code \<mapsto> the state)\<rparr>
         else self)"

definition load_from_csv :: "file_system \<Rightarrow> string \<Rightarrow> mapper \<Rightarrow> mapper outcome" where
  "load_from_csv fs file_path self =
     (let self' = foldl insert_row self (csv_rows fs file_path)
      in if csv_raises fs file_path then Raised self' else Returned self')"

text \<open>\<^verbatim>\<open>str(n)\<close> for a natural number.\<close>

definition digit_of :: "nat \<Rightarrow> char" where
  "digit_of d = char_of (48 + d)"

function str_nat :: "nat \<Rightarrow> string" where
  "str_nat n = (if n < 10 then [digit_of n] else str_nat (n div 10) @ [digit_of (n mod 10)])"
  by pat_completeness auto
termination
  by (relation "measure id") auto

declare str_nat.simps [simp del]

definition state_ranges :: "(string \<times> nat \<times> nat) list" where
  "state_ranges =
     [(''AL'', 35000, 36999), (''AK'', 99500, 99999), (''AZ'', 85000, 86999),
      (''AR'', 71600, 72999), (''WA'', 98000, 99499)]"

definition fill_range :: "mapper \<Rightarrow> string \<times> nat \<times> nat \<Rightarrow> mapper" where
  "fill_range self r =
     (case r of (state, start, end) \<Rightarrow>
        foldl (\<lambda>m zip_code. m\<lparr>zip_to_state_map := (zip_to_state_map m)(str_nat zip_code \<mapsto> state)\<rparr>)
          self [start ..< end + 1])"

definition create_initial_mapping :: "mapper \<Rightarrow> mapper" where
  "create_initial_mapping self = foldl fill_range self state_ranges"

text \<open>\<^verbatim>\<open>_download_zip_database\<close> only writes to the log.\<close>

definition download_zip_database :: "mapper \<Rightarrow> mapper" where
  "download_zip_database self = self"

text \<open>
  \<^verbatim>\<open>_load_zip_database\<close>. \<open>default_db_path\<close> is the path of the bundled file, which the
  source derives from the location of the module. \<open>load_body\<close> is the block under
  \<^verbatim>\<open>try\<close>; the handler catches whatever it raises.
\<close>

definition load_body :: "file_system \<Rightarrow> string \<Rightarrow> mapper \<Rightarrow> mapper outcome" where
  "load_body fs default_db_path self =
     (if truthy (zip_database_path self) \<and> path_exists fs (the (zip_database_path self))
      then load_from_csv fs (the (zip_database_path self)) self
      else if path_exists fs default_db_path
      then load_from_csv fs default_db_path self
      else (let self1 = create_initial_mapping self
            in if makedirs_raises fs then Raised self1
               else Returned (download_zip_database self1)))"

definition load_zip_database :: "file_system \<Rightarrow> string \<Rightarrow> mapper \<Rightarrow> mapper outcome" where
  "load_zip_database fs default_db_path self =
     (case load_body fs default_db_path self of
        Returned self' \<Rightarrow> Returned self'
      | Raised self' \<Rightarrow> Returned (create_initial_mapping self'))"

text \<open>The constructor.\<close>

definition init :: "file_system \<Rightarrow> string \<Rightarrow> string option \<Rightarrow> mapper outcome" where
  "init fs default_db_path path =
     load_zip_database fs default_db_path
       \<lparr>zip_to_state_map = Map.empty, zip_database_path = path\<rparr>"

subsection \<open>\<^verbatim>\<open>states_to_urls\<close>\<close>

definition state_names :: "(string \<times> string) list" where
  "state_names =
     [
      (''AL'', ''alabama''), (''AK'', ''alaska''), (''AZ'', ''arizona''),
      (''AR'', ''arkansas''), (''CA'', ''california''), (''CO'', ''colorado''),
      (''CT'', ''connecticut''), (''DE'', ''delaware''), (''FL'', ''florida''),
      (''GA'', ''georgia''), (''HI'', ''hawaii''), (''ID'', ''idaho''),
      (''IL'', ''illinois''), (''IN'', ''indiana''), (''IA'', ''iowa''),
      (''KS'', ''kansas''), (''KY'', ''kentucky''), (''LA'', ''louisiana''),
      (''ME'', ''maine''), (''MD'', ''maryland''), (''MA'', ''massachusetts''),
      (''MI'', ''michigan''), (''MN'', ''minnesota''), (''MS'', ''mississippi''),
      (''MO'', ''missouri''), (''MT'', ''montana''), (''NE'', ''nebraska''),
      (''NV'', ''nevada''), (''NH'', ''new-hampshire''), (''NJ'', ''new-jersey''),
      (''NM'', ''new-mexico''), (''NY'', ''new-york''), (''NC'', ''north-carolina''),
      (''ND'', ''north-dakota''), (''OH'', ''ohio''), (''OK'', ''oklahoma''),
      (''OR'', ''oregon''), (''PA'', ''pennsylvania''), (''RI'', ''rhode-island''),
      (''SC'', ''south-carolina''), (''SD'', ''south-dakota''), (''TN'', ''tennessee''),
      (''TX'', ''texas''), (''UT'', ''utah''), (''VT'', ''vermont''),
      (''VA'', ''virginia''), (''WA'', ''washington''), (''WV'', ''west-virginia''),
      (''WI'', ''wisconsin''), (''WY'', ''wyoming''), (''DC'', ''district-of-columbia'')]"

definition default_base_url :: string where
  "default_base_url = ''https://potadvisor.com''"

text \<open>\<^verbatim>\<open>d[k] = v\<close> on a dictionary kept in the order of insertion.\<close>

fun dict_set :: "'k \<Rightarrow> 'v \<Rightarrow> ('k \<times> 'v) list \<Rightarrow> ('k \<times> 'v) list" where
  "dict_set k v [] = [(k, v)]"
| "dict_set k v ((k', v') # rest) =
     (if k' = k then (k', v) # rest else (k', v') # dict_set k v rest)"

text \<open>
  The argument is a set; \<open>states\<close> lists its members in the order in which the loop meets
  them.
\<close>

definition url_step :: "string \<Rightarrow> (string \<times> string \<times> string) list \<Rightarrow> string
    \<Rightarrow> (string \<times> string \<times> string) list" where
  "url_step base_url urls state =
     (case map_of state_names state of
        Some state_name \<Rightarrow>
          dict_set state
            (base_url @ ''/states/'' @ state_name @ ''/'' @ state_name @ ''-dispensaries/'',
             state_name) urls
      | None \<Rightarrow> urls)"

definition states_to_urls :: "string list \<Rightarrow> string \<Rightarrow> (string \<times> string \<times> string) list" where
  "states_to_urls states base_url = foldl (url_step base_url) [] states"

section \<open>Vocabulary of the statements\<close>

text \<open>A ZIP base: a string of five decimal digits.\<close>

definition zip_base :: "string \<Rightarrow> bool" where
  "zip_base b \<longleftrightarrow> length b = 5 \<and> list_all re_digit b"

text \<open>The format of a ZIP code: five digits, or five digits, a hyphen and four digits.\<close>

definition zip_format :: "string \<Rightarrow> bool" where
  "zip_format z \<longleftrightarrow>
     (length z = 5 \<and> list_all re_digit z)
     \<or> (length z = 10 \<and> list_all re_digit (take 5 z) \<and> z ! 5 = CHR ''-''
        \<and> list_all re_digit (drop 6 z))"

text \<open>The number a string of decimal digits denotes.\<close>

definition dec_val :: "string \<Rightarrow> nat" where
  "dec_val s = foldl (\<lambda>acc c. 10 * acc + digit_val c) 0 s"

text \<open>A classifier whose database holds one ZIP code of Alaska.\<close>

definition ak_mapper :: mapper where
  "ak_mapper = \<lparr>zip_to_state_map = [''99501'' \<mapsto> ''AK''], zip_database_path = None\<rparr>"

text \<open>The characters of a canonical state name: lower-case letters and the hyphen.\<close>

definition name_char :: "char \<Rightarrow> bool" where
  "name_char c \<longleftrightarrow> (97 \<le> code c \<and> code c \<le> 122) \<or> c = CHR ''-''"

text \<open>A state abbreviation: two upper-case letters.\<close>

definition upper_char :: "char \<Rightarrow> bool" where
  "upper_char c \<longleftrightarrow> 65 \<le> code c \<and> code c \<le> 90"

definition state_abbr :: "string \<Rightarrow> bool" where
  "state_abbr v \<longleftrightarrow> length v = 2 \<and> list_all upper_char v"

text \<open>The directory URL of a state, after the pattern
  \<^verbatim>\<open>{base_url}/states/{state_name}/{state_name}-dispensaries/\<close>, paired with the name.\<close>

definition state_url :: "string \<Rightarrow> string \<Rightarrow> string \<times> string" where
  "state_url base_url state_name =
     (base_url @ ''/states/'' @ state_name @ ''/'' @ state_name @ ''-dispensaries/'', state_name)"

text \<open>
  The state under which the loop of \<^verbatim>\<open>process_zip_codes\<close> files a candidate: the
  candidate passes \<^verbatim>\<open>validate_zip_code\<close> and \<^verbatim>\<open>get_state_for_zip\<close> gives a state that
  the test \<^verbatim>\<open>if state:\<close> accepts.
\<close>

definition resolve :: "mapper \<Rightarrow> string \<Rightarrow> string option" where
  "resolve self z =
     (if validate_zip_code self z
      then (case get_state_for_zip self z of
              None \<Rightarrow> None
            | Some state \<Rightarrow> if state \<noteq> [] then Some state else None)
      else None)"

text \<open>The members of a list in the order of their first occurrence.\<close>

primrec first_occurrences :: "'a list \<Rightarrow> 'a list" where
  "first_occurrences [] = []"
| "first_occurrences (x # xs) = x # removeAll x (first_occurrences xs)"

text \<open>The cells a row offers for the ZIP code and for the state, under the column names the
  loader accepts, and the entry the row adds to the database, if any.\<close>

definition zip_column :: "csv_row \<Rightarrow> string option" where
  "zip_column row = py_or (py_or (row ''zip_code'') (row ''zipcode'')) (row ''ZIP'')"

definition state_column :: "csv_row \<Rightarrow> string option" where
  "state_column row = py_or (py_or (row ''state'') (row ''STATE'')) (row ''state_abbr'')"

definition row_entry :: "csv_row \<Rightarrow> (string \<times> string) option" where
  "row_entry row =
     (if truthy (zip_column row) \<and> truthy (state_column row)
      then Some (the (zip_column row), the (state_column row)) else None)"

text \<open>The mapping a sequence of rows builds: a later row overrides an earlier one.\<close>

definition rows_loaded :: "csv_row list \<Rightarrow> (string \<rightharpoonup> string)" where
  "rows_loaded rows = map_of (rev (List.map_filter row_entry rows))"

text \<open>The synthesized table: a key is the decimal numeral of a number of one of the ranges.\<close>

definition in_range :: "string \<Rightarrow> string \<times> nat \<times> nat \<Rightarrow> bool" where
  "in_range k r =
     (case r of (state, start, end) \<Rightarrow>
        k = str_nat (dec_val k) \<and> start \<le> dec_val k \<and> dec_val k \<le> end)"

definition range_table :: "string \<rightharpoonup> string" where
  "range_table k = map_option fst (List.find (in_range k) (rev state_ranges))"

text \<open>The source the loader picks, in the order of priority.\<close>

datatype source = External_file string | Bundled_file | Range_table

definition chosen_source :: "file_system \<Rightarrow> string \<Rightarrow> string option \<Rightarrow> source" where
  "chosen_source fs default_db_path path =
     (if truthy path \<and> path_exists fs (the path) then External_file (the path)
      else if path_exists fs default_db_path then Bundled_file
      else Range_table)"

text \<open>The object a call leaves behind, whether it returned or raised.\<close>

definition state_of :: "'a outcome \<Rightarrow> 'a" where
  "state_of r = (case r of Returned x \<Rightarrow> x | Raised x \<Rightarrow> x)"

text \<open>The rows of the file the loader picks (none when it picks the range table).\<close>

definition chosen_rows :: "file_system \<Rightarrow> string \<Rightarrow> string option \<Rightarrow> csv_row list" where
  "chosen_rows fs default_db_path path =
     (case chosen_source fs default_db_path path of
        External_file f \<Rightarrow> csv_rows fs f
      | Bundled_file \<Rightarrow> csv_rows fs default_db_path
      | Range_table \<Rightarrow> [])"

text \<open>Three file systems: one where the explicit file cannot be read while the bundled file is
  fine, one whose explicit file holds a row that is no ZIP code and no state, and one with
  no file at all, where creating the directory fails as well.\<close>

definition fs_failing_custom :: file_system where
  "fs_failing_custom =
     \<lparr>path_exists = (\<lambda>p. p = ''custom.csv'' \<or> p = ''bundled.csv''),
      csv_rows = (\<lambda>p. if p = ''bundled.csv''
                       then [[''zip_code'' \<mapsto> ''10001'', ''state'' \<mapsto> ''NY'']] else []),
      csv_raises = (\<lambda>p. p = ''custom.csv''),
      makedirs_raises = False\<rparr>"

definition fs_odd_rows :: file_system where
  "fs_odd_rows =
     \<lparr>path_exists = (\<lambda>p. p = ''custom.csv''),
      csv_rows = (\<lambda>p. [[''zip_code'' \<mapsto> ''abc'', ''state'' \<mapsto> ''xyz'']]),
      csv_raises = (\<lambda>p. False),
      makedirs_raises = False\<rparr>"

definition fs_no_files :: file_system where
  "fs_no_files =
     \<lparr>path_exists = (\<lambda>p. False), csv_rows = (\<lambda>p. []), csv_raises = (\<lambda>p. False),
      makedirs_raises = True\<rparr>"

text \<open>The first pass in the words of the specification, by positions in the text. A word
  boundary lies at position \<open>i\<close> when exactly one of the characters before and at \<open>i\<close> is a
  word character; the \<open>n\<close> characters from \<open>i\<close> are a whole-word ZIP code when they have
  the format and a boundary lies at both ends.\<close>

definition boundary_at :: "string \<Rightarrow> nat \<Rightarrow> bool" where
  "boundary_at s i \<longleftrightarrow>
     (0 < i \<and> i \<le> length s \<and> re_word (s ! (i - 1))) \<noteq> (i < length s \<and> re_word (s ! i))"

definition whole_word_zip :: "string \<Rightarrow> nat \<Rightarrow> nat \<Rightarrow> bool" where
  "whole_word_zip s i n \<longleftrightarrow>
     i + n \<le> length s \<and> zip_format (take n (drop i s))
     \<and> boundary_at s i \<and> boundary_at s (i + n)"

text \<open>Every whole-word ZIP code in the order of occurrence: from the left, the longer form
  before the shorter, the search going on behind each one found.\<close>

function first_pass_from :: "string \<Rightarrow> nat \<Rightarrow> string list" where
  "first_pass_from s i =
     (if length s \<le> i then []
      else if whole_word_zip s i 10 then take 10 (drop i s) # first_pass_from s (i + 10)
      else if whole_word_zip s i 5 then take 5 (drop i s) # first_pass_from s (i + 5)
      else first_pass_from s (i + 1))"
  by pat_completeness auto
termination
  by (relation "measure (\<lambda>(s, i). length s - i)") auto

declare first_pass_from.simps [simp del]

definition first_pass :: "string \<Rightarrow> string list" where
  "first_pass s = first_pass_from s 0"

text \<open>The character before a position, as the matcher sees it.\<close>

definition prev_at :: "string \<Rightarrow> nat \<Rightarrow> char option" where
  "prev_at s i = (if i = 0 then None else Some (s ! (i - 1)))"

text \<open>A world with the classifier of one Alaskan ZIP code and an empty log.\<close>

definition ak_world :: world where
  "ak_world = \<lparr>mapper_obj = ak_mapper, log_records = []\<rparr>"

section \<open>Properties\<close>

subsection \<open>\<^verbatim>\<open>get_state_for_zip\<close>: the lookup\<close>

lemma py_split_nonempty: "py_split sep s \<noteq> []"
  by (induction s) (auto split: list.splits)

lemma hd_py_split: "hd (py_split sep s) = takeWhile (\<lambda>c. c \<noteq> sep) s"
  by (induction s) (auto split: list.splits simp: py_split_nonempty)

lemma re_digit_not_hyphen: "re_digit c \<Longrightarrow> c \<noteq> CHR ''-''"
  by (auto simp: re_digit_def code_def)

lemma takeWhile_digits_hyphen:
  "list_all re_digit b \<Longrightarrow> takeWhile (\<lambda>c. c \<noteq> CHR ''-'') (b @ CHR ''-'' # x) = b"
  by (induction b) (auto simp: re_digit_not_hyphen)

lemma takeWhile_digits:
  "list_all re_digit b \<Longrightarrow> takeWhile (\<lambda>c. c \<noteq> CHR ''-'') b = b"
  by (induction b) (auto simp: re_digit_not_hyphen)

text \<open>
  Claim C3. \<^verbatim>\<open>get_state_for_zip\<close> looks up, in the loaded database, what stands before
  the first hyphen of its argument, and returns what the database holds there (nothing
  when that is not a key). So for a ZIP base \<open>b\<close> of the database and any suffix \<open>x\<close>, the
  ZIP+4 variant \<open>b-x\<close> and \<open>b\<close> itself both give the state mapped to \<open>b\<close>.
\<close>

theorem get_state_for_zip_lookup:
  "get_state_for_zip self s = zip_to_state_map self (takeWhile (\<lambda>c. c \<noteq> CHR ''-'') s)
   \<and> (zip_base b \<and> zip_to_state_map self b = Some st \<longrightarrow>
        get_state_for_zip self (b @ CHR ''-'' # x) = get_state_for_zip self b
        \<and> get_state_for_zip self b = Some st)"
  by (simp add: get_state_for_zip_def hd_py_split zip_base_def takeWhile_digits_hyphen
      takeWhile_digits)

theorem get_state_for_zip_lookup_witness:
  "zip_base ''99501'' \<and> zip_to_state_map ak_mapper ''99501'' = Some ''AK''
   \<and> get_state_for_zip ak_mapper ''99501-1234'' = Some ''AK''
   \<and> get_state_for_zip ak_mapper ''99501'' = Some ''AK''"
  using get_state_for_zip_lookup [of ak_mapper "''99501-1234''" "''99501''" "''AK''" "''1234''"]
  by (simp add: zip_base_def re_digit_def code_def ak_mapper_def)

subsection \<open>\<^verbatim>\<open>validate_zip_code\<close>: format and range\<close>

lemma int_body_digits:
  "list_all re_digit ds \<Longrightarrow> int_body acc ds = Some (foldl (\<lambda>a c. 10 * a + digit_val c) acc ds)"
  by (induction acc ds rule: int_body.induct) auto

lemma re_digit_not_int_space: "re_digit c \<Longrightarrow> \<not> int_space c"
  by (auto simp: re_digit_def int_space_def)

lemma re_digit_not_sign: "re_digit c \<Longrightarrow> c \<noteq> CHR ''-'' \<and> c \<noteq> CHR ''+''"
  by (auto simp: re_digit_def code_def)

lemma py_int_digits:
  assumes "list_all re_digit s" and "s \<noteq> []"
  shows "py_int s = Some (int (dec_val s))"
proof -
  from assms obtain d ds where s: "s = d # ds" by (cases s) auto
  with assms have d: "re_digit d" and ds: "list_all re_digit ds" by auto
  have "re_digit (last s)" using assms by (metis last_in_set list_all_iff)
  then have "dropWhile int_space (rev s) = rev s"
    using assms(2) by (cases "rev s") (auto simp: re_digit_not_int_space dest!: arg_cong[where f=hd] simp: hd_rev)
  moreover have "dropWhile int_space s = s"
    using d by (simp add: s re_digit_not_int_space)
  ultimately have "rev (dropWhile int_space (rev (dropWhile int_space s))) = s" by simp
  then show ?thesis
    using d ds re_digit_not_sign[OF d]
    by (simp add: py_int_def s int_unsigned_def int_body_digits dec_val_def)
qed

lemma is_in_valid_range_digits:
  "list_all re_digit s \<Longrightarrow> s \<noteq> [] \<Longrightarrow>
   is_in_valid_range s \<longleftrightarrow> 0 < dec_val s \<and> dec_val s < 100000"
  by (simp add: is_in_valid_range_def py_int_digits)

lemma zip_format_iff:
  "zip_format z \<longleftrightarrow>
     (length z = 5 \<and> list_all re_digit z)
     \<or> (\<exists>p q. z = p @ CHR ''-'' # q \<and> length p = 5 \<and> list_all re_digit p
            \<and> length q = 4 \<and> list_all re_digit q)"
proof
  assume "zip_format z"
  then consider "length z = 5 \<and> list_all re_digit z"
    | "length z = 10" "list_all re_digit (take 5 z)" "z ! 5 = CHR ''-''"
      "list_all re_digit (drop 6 z)"
    by (auto simp: zip_format_def)
  then show "(length z = 5 \<and> list_all re_digit z)
     \<or> (\<exists>p q. z = p @ CHR ''-'' # q \<and> length p = 5 \<and> list_all re_digit p
            \<and> length q = 4 \<and> list_all re_digit q)"
  proof cases
    case 1
    then show ?thesis by simp
  next
    case 2
    have "z = take 5 z @ z ! 5 # drop (Suc 5) z"
      using 2(1) by (intro id_take_nth_drop) simp
    then have "z = take 5 z @ CHR ''-'' # drop 6 z" using 2(3) by simp
    moreover have "length (take 5 z) = 5" "length (drop 6 z) = 4" using 2(1) by simp_all
    ultimately show ?thesis using 2(2,4) by blast
  qed
next
  assume "(length z = 5 \<and> list_all re_digit z)
     \<or> (\<exists>p q. z = p @ CHR ''-'' # q \<and> length p = 5 \<and> list_all re_digit p
            \<and> length q = 4 \<and> list_all re_digit q)"
  then show "zip_format z"
    by (auto simp: zip_format_def nth_append)
qed

lemma zip_pattern_match_iff:
  "zip_pattern_match s \<longleftrightarrow> zip_format s \<or> (\<exists>t. zip_format t \<and> s = t @ [CHR 0x0A])"
proof
  assume m: "zip_pattern_match s"
  then have len: "5 \<le> length s" and dig: "list_all re_digit (take 5 s)"
    by (auto simp: zip_pattern_match_def digits_prefix_def)
  have s: "s = take 5 s @ drop 5 s" by simp
  have l5: "length (take 5 s) = 5" using len by simp
  from m consider (short) "at_dollar (drop 5 s)"
    | (long) r' where "drop 5 s = CHR ''-'' # r'" "digits_prefix 4 r'" "at_dollar (drop 4 r')"
    by (auto simp: zip_pattern_match_def Let_def split: list.splits)
  then show "zip_format s \<or> (\<exists>t. zip_format t \<and> s = t @ [CHR 0x0A])"
  proof cases
    case short
    then consider "drop 5 s = []" | "drop 5 s = [CHR 0x0A]" by (auto simp: at_dollar_def)
    then show ?thesis
    proof cases
      case 1
      then have "take 5 s = s" using s by (metis append_Nil2)
      then show ?thesis using l5 dig by (auto simp: zip_format_iff)
    next
      case 2
      then have "s = take 5 s @ [CHR 0x0A]" using s by metis
      moreover have "zip_format (take 5 s)" using l5 dig by (simp add: zip_format_iff)
      ultimately show ?thesis by blast
    qed
  next
    case long
    have r': "r' = take 4 r' @ drop 4 r'" by simp
    have l4: "length (take 4 r') = 4" and d4: "list_all re_digit (take 4 r')"
      using long(2) by (auto simp: digits_prefix_def)
    have zf: "zip_format (take 5 s @ CHR ''-'' # take 4 r')"
      using l5 dig l4 d4 unfolding zip_format_iff by blast
    have s': "s = (take 5 s @ CHR ''-'' # take 4 r') @ drop 4 r'"
      using s long(1) r' by (metis append_Cons append_assoc)
    from long(3) consider "drop 4 r' = []" | "drop 4 r' = [CHR 0x0A]"
      by (auto simp: at_dollar_def)
    then show ?thesis
    proof cases
      case 1
      then show ?thesis using zf s' by (metis append_Nil2)
    next
      case 2
      then show ?thesis using zf s' by metis
    qed
  qed
next
  assume "zip_format s \<or> (\<exists>t. zip_format t \<and> s = t @ [CHR 0x0A])"
  then obtain t e where t: "zip_format t" and s: "s = t @ e" and e: "at_dollar e"
    by (auto simp: at_dollar_def)
  from t show "zip_pattern_match s"
    unfolding zip_format_iff
  proof (elim disjE exE conjE)
    assume "length t = 5" "list_all re_digit t"
    then show ?thesis using e
      by (simp add: zip_pattern_match_def digits_prefix_def s)
  next
    fix p q
    assume "t = p @ CHR ''-'' # q" "length p = 5" "list_all re_digit p" "length q = 4"
      "list_all re_digit q"
    then show ?thesis using e
      by (simp add: zip_pattern_match_def digits_prefix_def s)
  qed
qed

lemma take5_zip_format:
  "zip_format t \<Longrightarrow> length (take 5 (t @ e)) = 5 \<and> list_all re_digit (take 5 (t @ e))
     \<and> take 5 (t @ e) = take 5 t"
  by (auto simp: zip_format_iff)

lemma validate_zip_code_format:
  "validate_zip_code self s \<Longrightarrow> zip_format s \<or> (\<exists>t. zip_format t \<and> s = t @ [CHR 0x0A])"
  by (simp add: validate_zip_code_def zip_pattern_match_iff split: if_splits)

lemma validate_zip_code_on_format:
  assumes "zip_format s"
  shows "validate_zip_code self s \<longleftrightarrow>
     take 5 s \<in> dom (zip_to_state_map self)
     \<or> (0 < dec_val (take 5 s) \<and> dec_val (take 5 s) < 100000)"
proof -
  have "zip_pattern_match s" using assms by (simp add: zip_pattern_match_iff)
  moreover have "list_all re_digit (take 5 s)" "take 5 s \<noteq> []"
    using take5_zip_format[OF assms, of "[]"] by auto
  ultimately show ?thesis
    by (auto simp: validate_zip_code_def is_in_valid_range_digits Let_def)
qed

lemma validate_zip_code_examples:
  "\<not> validate_zip_code self ''abc12''" "\<not> validate_zip_code self ''123456''"
  by (simp_all add: validate_zip_code_def zip_pattern_match_def digits_prefix_def at_dollar_def
      re_digit_def code_def)

text \<open>
  Claim C1. \<^verbatim>\<open>validate_zip_code\<close> is to accept a string only if it has the format of five
  digits, or of five digits, a hyphen and four digits. The pattern ends in \<^verbatim>\<open>$\<close>, which
  also matches before a final newline: the six characters \<^verbatim>\<open>12345\n\<close> are accepted, by
  every classifier, although they are not of that format. The lemmas above give the rest
  of the claim: an accepted string has the format up to such a final newline, and on a
  string of the format the answer is that the base is in the database or denotes a
  number strictly between 0 and 100000.
\<close>

theorem validate_zip_code_trailing_newline:
  "validate_zip_code self (''12345'' @ [CHR 0x0A]) \<and> \<not> zip_format (''12345'' @ [CHR 0x0A])"
  by (simp add: validate_zip_code_def zip_pattern_match_def digits_prefix_def at_dollar_def
      re_digit_def code_def is_in_valid_range_def py_int_def int_space_def int_unsigned_def
      digit_val_def zip_format_def)

theorem validate_zip_code_trailing_newline_witness:
  "validate_zip_code ak_mapper (''12345'' @ [CHR 0x0A])
   \<and> \<not> zip_format (''12345'' @ [CHR 0x0A])
   \<and> zip_to_state_map ak_mapper ''12345'' = None \<and> is_in_valid_range ''12345''"
  using validate_zip_code_trailing_newline [of ak_mapper]
  by (simp add: ak_mapper_def is_in_valid_range_def py_int_def int_space_def int_unsigned_def
      digit_val_def re_digit_def code_def)

subsection \<open>\<^verbatim>\<open>states_to_urls\<close>\<close>

lemma map_of_dict_set: "map_of (dict_set k v l) = (map_of l)(k \<mapsto> v)"
  by (induction l) (auto simp: fun_eq_iff)

lemma map_of_url_step:
  "map_of (url_step base_url urls state) =
     (case map_of state_names state of
        Some n \<Rightarrow> (map_of urls)(state \<mapsto> state_url base_url n)
      | None \<Rightarrow> map_of urls)"
  by (simp add: url_step_def map_of_dict_set state_url_def split: option.splits)

lemma map_of_foldl_url_step:
  "map_of (foldl (url_step base_url) urls states) st =
     (if st \<in> set states \<and> map_of state_names st \<noteq> None
      then map_option (state_url base_url) (map_of state_names st)
      else map_of urls st)"
proof (induction states arbitrary: urls)
  case Nil
  show ?case by simp
next
  case (Cons a states)
  show ?case
    by (auto simp: Cons.IH map_of_url_step split: option.splits)
qed

lemma state_names_table:
  "length state_names = 51" "distinct (map fst state_names)"
  "list_all (\<lambda>(k, n). state_abbr k \<and> n \<noteq> [] \<and> list_all name_char n) state_names"
  by (simp_all add: state_names_def state_abbr_def upper_char_def name_char_def code_def)

text \<open>
  Claim C7. Whatever the set of abbreviations and the base URL, the mapping returned by
  \<^verbatim>\<open>states_to_urls\<close> holds, for each member of the set that is one of the 51 known
  codes, the pair of the URL built after the pattern and the canonical name, and holds
  nothing for any other code; the function has no failing branch. The table has 51
  distinct codes, each with a name of lower-case letters and hyphens. The set holding
  only WA gives the one entry of Washington, the set holding only ZZ gives the empty
  mapping.
\<close>

theorem states_to_urls_mapping:
  "map_of (states_to_urls states base_url) st =
     (if st \<in> set states then map_option (state_url base_url) (map_of state_names st) else None)
   \<and> length state_names = 51 \<and> distinct (map fst state_names)
   \<and> list_all (\<lambda>(k, n). state_abbr k \<and> n \<noteq> [] \<and> list_all name_char n) state_names
   \<and> states_to_urls [''WA''] default_base_url =
       [(''WA'', ''https://potadvisor.com/states/washington/washington-dispensaries/'',
         ''washington'')]
   \<and> states_to_urls [''ZZ''] default_base_url = []"
proof -
  have "map_of (states_to_urls states base_url) st =
     (if st \<in> set states then map_option (state_url base_url) (map_of state_names st) else None)"
    by (auto simp: states_to_urls_def map_of_foldl_url_step)
  moreover have "states_to_urls [''WA''] default_base_url =
       [(''WA'', ''https://potadvisor.com/states/washington/washington-dispensaries/'',
         ''washington'')]"
    by (simp add: states_to_urls_def url_step_def state_names_def default_base_url_def)
  moreover have "states_to_urls [''ZZ''] default_base_url = []"
    by (simp add: states_to_urls_def url_step_def state_names_def)
  ultimately show ?thesis using state_names_table by blast
qed

theorem states_to_urls_mapping_witness:
  "''NH'' \<in> set [''ZZ'', ''NH'']
   \<and> map_of (states_to_urls [''ZZ'', ''NH''] ''http://x'') ''NH''
       = Some (''http://x/states/new-hampshire/new-hampshire-dispensaries/'', ''new-hampshire'')
   \<and> map_of (states_to_urls [''ZZ'', ''NH''] ''http://x'') ''ZZ'' = None"
  using states_to_urls_mapping [of "[''ZZ'', ''NH'']" "''http://x''" "''NH''"]
    states_to_urls_mapping [of "[''ZZ'', ''NH'']" "''http://x''" "''ZZ''"]
  by (simp add: state_names_def state_url_def)

subsection \<open>\<^verbatim>\<open>process_zip_codes\<close>: the grouping\<close>

lemma keys_append_to: "map fst (append_to k z r) = map fst r"
  by (induction r) auto

lemma keys_setdefault_empty:
  "map fst (setdefault_empty k r) = (if k \<in> set (map fst r) then map fst r else map fst r @ [k])"
  by (simp add: setdefault_empty_def)

lemma map_of_append_to:
  "map_of (append_to k z r) = (case map_of r k of None \<Rightarrow> map_of r
     | Some zs \<Rightarrow> (map_of r)(k \<mapsto> zs @ [z]))"
  by (induction r) (auto simp: fun_eq_iff split: option.splits)

lemma map_of_setdefault_empty:
  "map_of (setdefault_empty k r) = (case map_of r k of None \<Rightarrow> (map_of r)(k \<mapsto> [])
     | Some zs \<Rightarrow> map_of r)"
proof (cases "k \<in> fst ` set r")
  case True
  then obtain zs where "map_of r k = Some zs"
    by (metis map_of_eq_None_iff not_None_eq)
  then show ?thesis using True by (simp add: setdefault_empty_def)
next
  case False
  then have none: "map_of r k = None" by (simp add: map_of_eq_None_iff)
  have "map_of (r @ [(k, [])]) x = ((map_of r)(k \<mapsto> [])) x" for x
    using none by (cases "map_of r x") (auto simp: map_add_def)
  then show ?thesis using False none by (auto simp: setdefault_empty_def)
qed

lemma map_of_add:
  "map_of (append_to k z (setdefault_empty k r)) =
     (map_of r)(k \<mapsto> (case map_of r k of None \<Rightarrow> [] | Some zs \<Rightarrow> zs) @ [z])"
  by (auto simp: map_of_append_to map_of_setdefault_empty fun_eq_iff split: option.splits)

lemma classify_step:
  "classify self (z # zs) (r, iv) =
     (case resolve self z of
        None \<Rightarrow> classify self zs (r, iv @ [z])
      | Some k \<Rightarrow> classify self zs (append_to k z (setdefault_empty k r), iv))"
  by (simp add: resolve_def split: option.splits)

lemma classify_invalid:
  "snd (classify self zs (r, iv)) = iv @ filter (\<lambda>z. resolve self z = None) zs"
proof (induction zs arbitrary: r iv)
  case Nil
  show ?case by simp
next
  case (Cons z zs)
  show ?case unfolding classify_step
    by (cases "resolve self z") (simp_all add: Cons.IH)
qed

lemma classify_lookup:
  "map_of (fst (classify self zs (r, iv))) st =
     (let new = filter (\<lambda>z. resolve self z = Some st) zs
      in case map_of r st of
           Some old \<Rightarrow> Some (old @ new)
         | None \<Rightarrow> if new = [] then None else Some new)"
proof (induction zs arbitrary: r iv)
  case Nil
  show ?case by (simp split: option.splits)
next
  case (Cons z zs)
  show ?case
  proof (cases "resolve self z")
    case None
    then show ?thesis unfolding classify_step by (simp add: Cons.IH)
  next
    case (Some k)
    then show ?thesis unfolding classify_step
      by (auto simp: Cons.IH map_of_add Let_def split: option.splits)
  qed
qed

lemma filter_removeAll: "filter P (removeAll k xs) = filter (\<lambda>x. P x \<and> x \<noteq> k) xs"
  by (induction xs) auto

lemma classify_keys:
  "map fst (fst (classify self zs (r, iv))) =
     map fst r @ filter (\<lambda>k. k \<notin> set (map fst r))
                   (first_occurrences (List.map_filter (resolve self) zs))"
proof (induction zs arbitrary: r iv)
  case Nil
  show ?case by (simp add: List.map_filter_simps)
next
  case (Cons z zs)
  show ?case
  proof (cases "resolve self z")
    case None
    then show ?thesis unfolding classify_step by (simp add: Cons.IH List.map_filter_simps)
  next
    case (Some k)
    show ?thesis
    proof (cases "k \<in> set (map fst r)")
      case True
      then have "filter (\<lambda>x. x \<notin> set (map fst r) \<and> x \<noteq> k) xs = filter (\<lambda>x. x \<notin> set (map fst r)) xs"
        for xs by (intro filter_cong) auto
      then show ?thesis unfolding classify_step using Some True
        by (simp add: Cons.IH List.map_filter_simps keys_append_to keys_setdefault_empty
            filter_removeAll)
    next
      case False
      have "filter (\<lambda>x. x \<noteq> k \<and> x \<notin> set (map fst r)) xs
          = filter (\<lambda>x. x \<notin> set (map fst r) \<and> x \<noteq> k) xs" for xs
        by (intro filter_cong) auto
      then show ?thesis unfolding classify_step using Some False
        by (simp add: Cons.IH List.map_filter_simps keys_append_to keys_setdefault_empty
            filter_removeAll)
    qed
  qed
qed

lemma distinct_first_occurrences: "distinct (first_occurrences xs)"
  by (induction xs) (auto simp: distinct_removeAll)

lemma set_first_occurrences: "set (first_occurrences xs) = set xs"
  by (induction xs) auto

lemma process_zip_codes_keys:
  "map fst (process_zip_codes self inp) =
     first_occurrences (List.map_filter (resolve self) (candidates inp))"
  by (simp add: process_zip_codes_def classify_keys)

lemma process_zip_codes_lookup:
  "map_of (process_zip_codes self inp) st =
     (let zs = filter (\<lambda>z. resolve self z = Some st) (candidates inp)
      in if zs = [] then None else Some zs)"
  by (simp add: process_zip_codes_def classify_lookup)

lemma process_zip_codes_distinct: "distinct (map fst (process_zip_codes self inp))"
  by (simp add: process_zip_codes_keys distinct_first_occurrences)

lemma process_zip_codes_entry:
  "(st, zs) \<in> set (process_zip_codes self inp) \<longleftrightarrow>
     zs \<noteq> [] \<and> zs = filter (\<lambda>z. resolve self z = Some st) (candidates inp)"
  using map_of_eq_Some_iff[OF process_zip_codes_distinct, of self inp st zs]
  by (auto simp: process_zip_codes_lookup Let_def split: if_splits)

lemma resolve_Some:
  "resolve self z = Some st \<longleftrightarrow>
     validate_zip_code self z \<and> get_state_for_zip self z = Some st \<and> st \<noteq> []"
  by (auto simp: resolve_def split: option.splits)

lemma resolve_None:
  "resolve self z = None \<longleftrightarrow>
     \<not> validate_zip_code self z \<or> get_state_for_zip self z = None
     \<or> get_state_for_zip self z = Some []"
  by (auto simp: resolve_def split: option.splits)

subsection \<open>The fallback pass: tokens between separators\<close>

lemma re_split_seps_last:
  assumes "dropWhile (\<lambda>c. \<not> split_sep c) s = []"
  shows "re_split_seps s = [takeWhile (\<lambda>c. \<not> split_sep c) s]"
proof -
  have "re_split_seps s = (let tok = takeWhile (\<lambda>c. \<not> split_sep c) s;
          rest = dropWhile (\<lambda>c. \<not> split_sep c) s
      in if rest = [] then [tok] else tok # re_split_seps (dropWhile split_sep rest))"
    by (rule re_split_seps.simps)
  also have "\<dots> = [takeWhile (\<lambda>c. \<not> split_sep c) s]"
    unfolding Let_def assms by (rule if_P) (rule refl)
  finally show ?thesis .
qed

lemma re_split_seps_more:
  assumes "dropWhile (\<lambda>c. \<not> split_sep c) s \<noteq> []"
  shows "re_split_seps s = takeWhile (\<lambda>c. \<not> split_sep c) s
           # re_split_seps (dropWhile split_sep (dropWhile (\<lambda>c. \<not> split_sep c) s))"
proof -
  have "re_split_seps s = (let tok = takeWhile (\<lambda>c. \<not> split_sep c) s;
          rest = dropWhile (\<lambda>c. \<not> split_sep c) s
      in if rest = [] then [tok] else tok # re_split_seps (dropWhile split_sep rest))"
    by (rule re_split_seps.simps)
  also have "\<dots> = takeWhile (\<lambda>c. \<not> split_sep c) s
           # re_split_seps (dropWhile split_sep (dropWhile (\<lambda>c. \<not> split_sep c) s))"
    unfolding Let_def by (rule if_not_P) (rule assms)
  finally show ?thesis .
qed

lemma length_after_separators:
  assumes "dropWhile (\<lambda>c. \<not> split_sep c) s \<noteq> []"
  shows "length (dropWhile split_sep (dropWhile (\<lambda>c. \<not> split_sep c) s)) < length s"
proof -
  let ?rest = "dropWhile (\<lambda>c. \<not> split_sep c) s"
  obtain c cs where rest: "?rest = c # cs" using assms by (cases ?rest) auto
  then have "split_sep c" by (metis hd_dropWhile list.sel(1) assms)
  then have "length (dropWhile split_sep ?rest) \<le> length cs"
    by (simp add: rest length_dropWhile_le)
  moreover have "length ?rest \<le> length s" by (simp add: length_dropWhile_le)
  ultimately show ?thesis by (simp add: rest)
qed

lemma split_tokens_no_sep:
  "t \<in> set (re_split_seps s) \<Longrightarrow> set t \<subseteq> set s \<and> (\<forall>c\<in>set t. \<not> split_sep c)"
proof (induction "length s" arbitrary: s rule: less_induct)
  case less
  let ?tok = "takeWhile (\<lambda>c. \<not> split_sep c) s"
  let ?rest = "dropWhile (\<lambda>c. \<not> split_sep c) s"
  have tok: "set ?tok \<subseteq> set s \<and> (\<forall>c\<in>set ?tok. \<not> split_sep c)"
    by (auto dest: set_takeWhileD)
  show ?case
  proof (cases "?rest = []")
    case True
    then have "t = ?tok" using less.prems by (simp add: re_split_seps_last)
    then show ?thesis using tok by simp
  next
    case False
    from less.prems consider "t = ?tok" | "t \<in> set (re_split_seps (dropWhile split_sep ?rest))"
      by (auto simp: re_split_seps_more[OF False])
    then show ?thesis
    proof cases
      case 1
      then show ?thesis using tok by simp
    next
      case 2
      have "set t \<subseteq> set (dropWhile split_sep ?rest) \<and> (\<forall>c\<in>set t. \<not> split_sep c)"
        using less.hyps[OF length_after_separators[OF False] 2] .
      moreover have "set (dropWhile split_sep ?rest) \<subseteq> set s"
        by (meson set_dropWhileD subsetI)
      ultimately show ?thesis by blast
    qed
  qed
qed

lemma dropWhile_none: "\<forall>x\<in>set xs. \<not> P x \<Longrightarrow> dropWhile P xs = xs"
  by (cases xs) auto

lemma strip_no_space: "\<forall>c\<in>set t. \<not> re_space c \<Longrightarrow> strip t = t"
  by (simp add: strip_def dropWhile_none)

lemma strip_token: "t \<in> set (re_split_seps s) \<Longrightarrow> strip t = t"
  using split_tokens_no_sep[of t s] by (intro strip_no_space) (auto simp: split_sep_def)

lemma fallback_tokens_filter: "fallback_tokens s = filter isdigit (re_split_seps s)"
proof -
  have "filter (\<lambda>z. strip z \<noteq> [] \<and> isdigit (strip z)) (re_split_seps s)
      = filter isdigit (re_split_seps s)"
    by (intro filter_cong refl) (auto simp: strip_token isdigit_def)
  moreover have "map strip (filter isdigit (re_split_seps s)) = filter isdigit (re_split_seps s)"
    by (intro map_idI) (auto simp: strip_token)
  ultimately show ?thesis by (simp add: fallback_tokens_def)
qed

lemma findall_no_digit:
  "\<forall>c\<in>set s. \<not> re_digit c \<Longrightarrow> findall_zip prev s = []"
proof (induction s arbitrary: prev)
  case Nil
  show ?case by simp
next
  case (Cons c cs)
  then have "zip_match_here prev (c # cs) = None"
    by (simp add: zip_match_here_def digits_prefix_def)
  then show ?case using Cons by simp
qed

lemma candidates_no_digit:
  assumes "\<forall>c\<in>set s. \<not> digit_char c"
  shows "candidates (Text s) = []"
proof -
  have "\<forall>c\<in>set s. \<not> re_digit c" using assms by (auto simp: digit_char_def)
  then have "re_findall_zip s = []" by (simp add: re_findall_zip_def findall_no_digit)
  moreover have "\<not> isdigit z" if "z \<in> set (re_split_seps s)" for z
  proof
    assume "isdigit z"
    then obtain c where "c \<in> set z" "digit_char c"
      by (cases z) (auto simp: isdigit_def)
    then show False using split_tokens_no_sep[OF that] assms by blast
  qed
  then have "filter isdigit (re_split_seps s) = []"
    by (simp add: filter_empty_conv)
  ultimately show ?thesis by (simp add: candidates_def fallback_tokens_filter)
qed

lemma candidates_examples:
  "candidates (Text '''') = []" "candidates (Text ''not a zip at all'') = []"
  by (rule candidates_no_digit, simp add: digit_char_def re_digit_def code_def)+

lemma process_zip_codes_no_candidates:
  "candidates inp = [] \<Longrightarrow> process_zip_codes self inp = []"
  by (simp add: process_zip_codes_def)

subsection \<open>\<^verbatim>\<open>process_zip_codes\<close>: the claims on the grouping\<close>

lemmas eval_defs = process_zip_codes_def unprocessed_zips_def candidates_def
  validate_zip_code_def zip_pattern_match_def digits_prefix_def at_dollar_def re_digit_def
  code_def is_in_valid_range_def py_int_def int_space_def int_unsigned_def digit_val_def
  get_state_for_zip_def ak_mapper_def setdefault_empty_def resolve_def

text \<open>
  Claim C5. \<^verbatim>\<open>process_zip_codes\<close> has no failing branch: a candidate that does not pass
  \<^verbatim>\<open>validate_zip_code\<close>, or passes it and gets no state from \<^verbatim>\<open>get_state_for_zip\<close>, is in
  no sequence of the returned grouping and is among the ZIP codes reported in the log.
  When no candidate resolves to a state the grouping is empty; so it is for the empty
  string and for a text with no ZIP-like token.
\<close>

theorem process_zip_codes_excludes_failures:
  "(\<forall>z\<in>set (candidates inp).
       \<not> validate_zip_code self z \<or> get_state_for_zip self z = None \<longrightarrow>
         z \<in> set (unprocessed_zips self inp)
         \<and> (\<forall>(st, zs)\<in>set (process_zip_codes self inp). z \<notin> set zs))
   \<and> unprocessed_zips self inp = filter (\<lambda>z. resolve self z = None) (candidates inp)
   \<and> ((\<forall>z\<in>set (candidates inp). resolve self z = None) \<longrightarrow> process_zip_codes self inp = [])
   \<and> process_zip_codes self (Text '''') = []
   \<and> process_zip_codes self (Text ''not a zip at all'') = []"
proof -
  have logged: "unprocessed_zips self inp = filter (\<lambda>z. resolve self z = None) (candidates inp)"
    by (simp add: unprocessed_zips_def classify_invalid)
  have excluded: "z \<in> set (unprocessed_zips self inp)
         \<and> (\<forall>(st, zs)\<in>set (process_zip_codes self inp). z \<notin> set zs)"
    if z: "z \<in> set (candidates inp)"
      and bad: "\<not> validate_zip_code self z \<or> get_state_for_zip self z = None" for z
  proof -
    from bad have none: "resolve self z = None" by (auto simp: resolve_None)
    then have "z \<in> set (unprocessed_zips self inp)" using z by (simp add: logged)
    moreover have "\<forall>(st, zs)\<in>set (process_zip_codes self inp). z \<notin> set zs"
      using none by (auto simp: process_zip_codes_entry)
    ultimately show ?thesis by blast
  qed
  have no_groups: "process_zip_codes self inp = []"
    if all: "\<forall>z\<in>set (candidates inp). resolve self z = None"
  proof -
    have "map fst (process_zip_codes self inp) = []"
      unfolding process_zip_codes_keys
      using all by (simp add: List.map_filter_def filter_empty_conv)
    then show ?thesis by simp
  qed
  have examples: "process_zip_codes self (Text '''') = []"
    "process_zip_codes self (Text ''not a zip at all'') = []"
    by (simp_all add: process_zip_codes_no_candidates candidates_examples)
  have c1: "\<forall>z\<in>set (candidates inp).
       \<not> validate_zip_code self z \<or> get_state_for_zip self z = None \<longrightarrow>
         z \<in> set (unprocessed_zips self inp)
         \<and> (\<forall>(st, zs)\<in>set (process_zip_codes self inp). z \<notin> set zs)"
  proof (rule ballI, rule impI)
    fix z
    assume "z \<in> set (candidates inp)"
      and "\<not> validate_zip_code self z \<or> get_state_for_zip self z = None"
    then show "z \<in> set (unprocessed_zips self inp)
         \<and> (\<forall>(st, zs)\<in>set (process_zip_codes self inp). z \<notin> set zs)"
      by (rule excluded)
  qed
  have c3: "(\<forall>z\<in>set (candidates inp). resolve self z = None) \<longrightarrow> process_zip_codes self inp = []"
    by (rule impI) (rule no_groups)
  from c1 logged c3 examples show ?thesis by (intro conjI)
qed

theorem process_zip_codes_excludes_failures_witness:
  "''abc12'' \<in> set (candidates (Zips [''99501'', ''abc12'']))
   \<and> \<not> validate_zip_code ak_mapper ''abc12''
   \<and> ''abc12'' \<in> set (unprocessed_zips ak_mapper (Zips [''99501'', ''abc12'']))
   \<and> process_zip_codes ak_mapper (Zips [''99501'', ''abc12'']) = [(''AK'', [''99501''])]
   \<and> resolve ak_mapper ''abc12'' = None
   \<and> process_zip_codes ak_mapper (Zips [''abc12'']) = []"
  using process_zip_codes_excludes_failures [of "Zips [''99501'', ''abc12'']" ak_mapper]
    process_zip_codes_excludes_failures [of "Zips [''abc12'']" ak_mapper]
  by (simp add: eval_defs)

text \<open>
  Claim C6. In the returned grouping the keys stand in the order in which their states were
  first met, each once, and the sequence of a state lists the candidates filed under it in
  the order of the input, every occurrence kept. Two occurrences of 99501 in a list are
  both in the sequence of the state that the database gives for 99501.
\<close>

theorem process_zip_codes_groups_in_order:
  "map fst (process_zip_codes self inp) =
     first_occurrences (List.map_filter (resolve self) (candidates inp))
   \<and> distinct (map fst (process_zip_codes self inp))
   \<and> map_of (process_zip_codes self inp) st =
       (let zs = filter (\<lambda>z. resolve self z = Some st) (candidates inp)
        in if zs = [] then None else Some zs)
   \<and> (zip_to_state_map self ''99501'' = Some st \<and> st \<noteq> [] \<longrightarrow>
        process_zip_codes self (Zips [''99501'', ''99501'']) = [(st, [''99501'', ''99501''])])"
proof (intro conjI impI)
  assume a: "zip_to_state_map self ''99501'' = Some st \<and> st \<noteq> []"
  then have v: "validate_zip_code self ''99501''"
    by (auto simp: validate_zip_code_on_format zip_format_def re_digit_def code_def)
  have g: "get_state_for_zip self ''99501'' = Some st"
    using a by (simp add: get_state_for_zip_def)
  show "process_zip_codes self (Zips [''99501'', ''99501'']) = [(st, [''99501'', ''99501''])]"
    using v g a
    by (simp add: process_zip_codes_def candidates_def setdefault_empty_def)
qed (simp_all add: process_zip_codes_keys distinct_first_occurrences process_zip_codes_lookup)

theorem process_zip_codes_groups_in_order_witness:
  "zip_to_state_map ak_mapper ''99501'' = Some ''AK'' \<and> ''AK'' \<noteq> []
   \<and> process_zip_codes ak_mapper (Zips [''99501'', ''99501'']) = [(''AK'', [''99501'', ''99501''])]
   \<and> map_of (process_zip_codes ak_mapper (Zips [''99501'', ''99501''])) ''AK''
       = Some [''99501'', ''99501'']
   \<and> map_of (process_zip_codes ak_mapper (Zips [''99501'', ''99501''])) ''WA'' = None"
  using process_zip_codes_groups_in_order [of ak_mapper "Zips [''99501'', ''99501'']" "''AK''"]
    process_zip_codes_groups_in_order [of ak_mapper "Zips [''99501'', ''99501'']" "''WA''"]
  by (simp add: eval_defs)

text \<open>
  Claim C10. Every key of the returned grouping is a value of the loaded database, no
  sequence is empty, and every ZIP code in the sequence of a key passes
  \<^verbatim>\<open>validate_zip_code\<close> and is mapped to that key by \<^verbatim>\<open>get_state_for_zip\<close>.
\<close>

theorem process_zip_codes_sound:
  "\<forall>(st, zs)\<in>set (process_zip_codes self inp).
     zs \<noteq> [] \<and> st \<in> ran (zip_to_state_map self)
     \<and> (\<forall>z\<in>set zs. validate_zip_code self z \<and> get_state_for_zip self z = Some st)"
proof (clarify, intro conjI ballI)
  fix st zs
  assume e: "(st, zs) \<in> set (process_zip_codes self inp)"
  then have ne: "zs \<noteq> []"
    and zs: "zs = filter (\<lambda>z. resolve self z = Some st) (candidates inp)"
    using process_zip_codes_entry[of st zs self inp] by blast+
  show "zs \<noteq> []" by (rule ne)
  have all: "validate_zip_code self z \<and> get_state_for_zip self z = Some st" if "z \<in> set zs" for z
    using that zs by (auto simp: resolve_Some)
  from ne obtain z where "z \<in> set zs" by (cases zs) auto
  then have "get_state_for_zip self z = Some st" using all by blast
  then show "st \<in> ran (zip_to_state_map self)"
    by (auto simp: get_state_for_zip_def ran_def)
  fix z assume "z \<in> set zs"
  then show "validate_zip_code self z" "get_state_for_zip self z = Some st"
    using all by blast+
qed

theorem process_zip_codes_sound_witness:
  "(''AK'', [''99501'', ''99501-1234''])
     \<in> set (process_zip_codes ak_mapper (Zips [''99501'', ''abc12'', ''99501-1234'']))
   \<and> ''AK'' \<in> ran (zip_to_state_map ak_mapper)
   \<and> validate_zip_code ak_mapper ''99501-1234''
   \<and> get_state_for_zip ak_mapper ''99501-1234'' = Some ''AK''"
  using process_zip_codes_sound [of ak_mapper "Zips [''99501'', ''abc12'', ''99501-1234'']"]
  by (simp add: eval_defs ran_def)

subsection \<open>Decimal numerals\<close>

lemma digit_of_props:
  "d < 10 \<Longrightarrow> re_digit (digit_of d) \<and> digit_val (digit_of d) = d"
  by (auto simp: digit_of_def re_digit_def digit_val_def code_def)

lemma dec_val_snoc: "dec_val (s @ [c]) = 10 * dec_val s + digit_val c"
  by (simp add: dec_val_def)

lemma str_nat_small: "n < 10 \<Longrightarrow> str_nat n = [digit_of n]"
  by (subst str_nat.simps) simp

lemma str_nat_large: "\<not> n < 10 \<Longrightarrow> str_nat n = str_nat (n div 10) @ [digit_of (n mod 10)]"
  by (subst str_nat.simps) simp

lemma str_nat_digits: "list_all re_digit (str_nat n)"
proof (induction n rule: str_nat.induct)
  case (1 n)
  show ?case
  proof (cases "n < 10")
    case True
    then show ?thesis by (simp add: str_nat_small digit_of_props)
  next
    case False
    then show ?thesis using 1 by (simp add: str_nat_large digit_of_props)
  qed
qed

lemma dec_val_str_nat: "dec_val (str_nat n) = n"
proof (induction n rule: str_nat.induct)
  case (1 n)
  show ?case
  proof (cases "n < 10")
    case True
    then show ?thesis by (simp add: str_nat_small dec_val_def digit_of_props)
  next
    case False
    then show ?thesis using 1 by (simp add: str_nat_large dec_val_snoc digit_of_props)
  qed
qed

lemma length_str_nat:
  "10 ^ k \<le> n \<Longrightarrow> n < 10 ^ Suc k \<Longrightarrow> length (str_nat n) = Suc k"
proof (induction k arbitrary: n)
  case 0
  then show ?case by (simp add: str_nat_small)
next
  case (Suc k)
  have "(1::nat) \<le> 10 ^ k" by simp
  then have "(10::nat) \<le> 10 ^ Suc k" by simp
  with Suc.prems(1) have big: "\<not> n < 10" by linarith
  have "10 * 10 ^ k \<le> n" using Suc.prems(1) by simp
  then have "10 ^ k \<le> n div 10" by (simp add: less_eq_div_iff_mult_less_eq mult.commute)
  moreover have "n < 10 * 10 ^ Suc k" using Suc.prems(2) by simp
  then have "n div 10 < 10 ^ Suc k" by (simp add: div_less_iff_less_mult mult.commute)
  ultimately have "length (str_nat (n div 10)) = Suc k" by (rule Suc.IH)
  then show ?case using big by (simp add: str_nat_large)
qed

lemma str_nat_five: "10000 \<le> n \<Longrightarrow> n \<le> 99999 \<Longrightarrow> zip_base (str_nat n)"
  using length_str_nat[of 4 n] by (simp add: zip_base_def str_nat_digits)

lemma str_nat_image_iff:
  "(\<exists>n. a \<le> n \<and> n \<le> b \<and> k = str_nat n)
     \<longleftrightarrow> k = str_nat (dec_val k) \<and> a \<le> dec_val k \<and> dec_val k \<le> b"
  by (auto simp: dec_val_str_nat)

subsection \<open>Loading the database\<close>

lemma insert_row_map:
  "zip_to_state_map (insert_row self row) =
     (case row_entry row of None \<Rightarrow> zip_to_state_map self
      | Some (k, v) \<Rightarrow> (zip_to_state_map self)(k \<mapsto> v))"
  "zip_database_path (insert_row self row) = zip_database_path self"
  by (simp_all add: insert_row_def row_entry_def zip_column_def state_column_def Let_def)

lemma rows_loaded_Cons:
  "rows_loaded (row # rows) =
     (case row_entry row of None \<Rightarrow> rows_loaded rows
      | Some (k, v) \<Rightarrow> [k \<mapsto> v] ++ rows_loaded rows)"
  by (auto simp: rows_loaded_def List.map_filter_simps split: option.splits)

lemma foldl_insert_row:
  "zip_to_state_map (foldl insert_row self rows) = zip_to_state_map self ++ rows_loaded rows
   \<and> zip_database_path (foldl insert_row self rows) = zip_database_path self"
proof (induction rows arbitrary: self)
  case Nil
  show ?case by (simp add: rows_loaded_def List.map_filter_simps)
next
  case (Cons row rows)
  show ?case
  proof (cases "row_entry row")
    case None
    then show ?thesis by (simp add: Cons.IH insert_row_map rows_loaded_Cons)
  next
    case (Some e)
    obtain k v where e: "e = (k, v)" by (cases e)
    show ?thesis using Some e
      by (auto simp: Cons.IH insert_row_map rows_loaded_Cons map_add_def fun_eq_iff
          split: option.splits)
  qed
qed

lemma fill_numbers:
  "zip_to_state_map (foldl (\<lambda>m zip_code.
        m\<lparr>zip_to_state_map := (zip_to_state_map m)(str_nat zip_code \<mapsto> state)\<rparr>) self ns) k
     = (if k \<in> str_nat ` set ns then Some state else zip_to_state_map self k)
   \<and> zip_database_path (foldl (\<lambda>m zip_code.
        m\<lparr>zip_to_state_map := (zip_to_state_map m)(str_nat zip_code \<mapsto> state)\<rparr>) self ns)
     = zip_database_path self"
  by (induction ns arbitrary: self) auto

lemma fill_range_map:
  "zip_to_state_map (fill_range self r) k =
     (if in_range k r then Some (fst r) else zip_to_state_map self k)"
  "zip_database_path (fill_range self r) = zip_database_path self"
proof -
  obtain state a b where r: "r = (state, a, b)" by (cases r)
  have "k \<in> str_nat ` set [a ..< b + 1] \<longleftrightarrow> in_range k r"
    using str_nat_image_iff[of a b k] by (auto simp: in_range_def r)
  then show "zip_to_state_map (fill_range self r) k =
     (if in_range k r then Some (fst r) else zip_to_state_map self k)"
    by (simp add: fill_range_def r fill_numbers)
  show "zip_database_path (fill_range self r) = zip_database_path self"
    by (simp add: fill_range_def r fill_numbers)
qed

lemma find_snoc:
  "List.find P (xs @ [x]) = (case List.find P xs of None \<Rightarrow> (if P x then Some x else None)
     | Some y \<Rightarrow> Some y)"
  by (induction xs) auto

lemma foldl_fill_range:
  "zip_to_state_map (foldl fill_range self rs) k =
     (case List.find (in_range k) (rev rs) of None \<Rightarrow> zip_to_state_map self k
      | Some r \<Rightarrow> Some (fst r))
   \<and> zip_database_path (foldl fill_range self rs) = zip_database_path self"
proof (induction rs arbitrary: self)
  case Nil
  show ?case by simp
next
  case (Cons r rs)
  show ?case
    by (simp add: Cons.IH fill_range_map find_snoc split: option.splits)
qed

lemma create_initial_mapping_map:
  "zip_to_state_map (create_initial_mapping self) = zip_to_state_map self ++ range_table"
  "zip_database_path (create_initial_mapping self) = zip_database_path self"
  by (auto simp: create_initial_mapping_def foldl_fill_range range_table_def map_add_def
      fun_eq_iff split: option.splits)

lemma create_initial_mapping_idem:
  "create_initial_mapping (create_initial_mapping self) = create_initial_mapping self"
  by (rule mapper.equality)
     (auto simp: create_initial_mapping_map map_add_def fun_eq_iff split: option.splits)

lemma find_SomeD: "List.find P xs = Some x \<Longrightarrow> x \<in> set xs \<and> P x"
  by (induction xs) (auto split: if_splits)

lemma range_table_entry:
  assumes "range_table k = Some v"
  shows "zip_base k \<and> state_abbr v"
proof -
  from assms obtain r where f: "List.find (in_range k) (rev state_ranges) = Some r" and v: "v = fst r"
    by (auto simp: range_table_def)
  then have r: "r \<in> set state_ranges" and k: "in_range k r"
    by (auto dest: find_SomeD)
  obtain st a b where rr: "r = (st, a, b)" by (cases r)
  from r rr have "10000 \<le> a \<and> b \<le> 99999 \<and> state_abbr st"
    by (auto simp: state_ranges_def state_abbr_def upper_char_def code_def)
  moreover from k rr have kk: "k = str_nat (dec_val k)" and "a \<le> dec_val k" "dec_val k \<le> b"
    by (auto simp: in_range_def)
  ultimately have "10000 \<le> dec_val k" "dec_val k \<le> 99999" and st: "state_abbr st"
    by auto
  then have "zip_base (str_nat (dec_val k))" by (intro str_nat_five)
  then have "zip_base k" using kk by simp
  then show ?thesis using st v rr by simp
qed

lemma load_from_csv_state:
  "load_from_csv fs f self =
     (if csv_raises fs f then Raised else Returned)
       \<lparr>zip_to_state_map = zip_to_state_map self ++ rows_loaded (csv_rows fs f),
        zip_database_path = zip_database_path self\<rparr>"
proof -
  have "foldl insert_row self (csv_rows fs f) =
      \<lparr>zip_to_state_map = zip_to_state_map self ++ rows_loaded (csv_rows fs f),
        zip_database_path = zip_database_path self\<rparr>"
    by (rule mapper.equality) (simp_all add: foldl_insert_row)
  then show ?thesis by (simp add: load_from_csv_def)
qed

lemma create_initial_mapping_state:
  "create_initial_mapping self =
     \<lparr>zip_to_state_map = zip_to_state_map self ++ range_table,
      zip_database_path = zip_database_path self\<rparr>"
  by (rule mapper.equality) (simp_all add: create_initial_mapping_map)

lemma map_add_self: "m ++ m = m"
  by (auto simp: map_add_def fun_eq_iff split: option.splits)

lemma init_state:
  "state_of (init fs default_db_path path) =
     \<lparr>zip_to_state_map =
        (case chosen_source fs default_db_path path of
           External_file f \<Rightarrow>
             if csv_raises fs f then rows_loaded (csv_rows fs f) ++ range_table
             else rows_loaded (csv_rows fs f)
         | Bundled_file \<Rightarrow>
             if csv_raises fs default_db_path
             then rows_loaded (csv_rows fs default_db_path) ++ range_table
             else rows_loaded (csv_rows fs default_db_path)
         | Range_table \<Rightarrow> range_table),
       zip_database_path = path\<rparr>"
  by (simp add: init_def load_zip_database_def load_body_def load_from_csv_state
      create_initial_mapping_state chosen_source_def download_zip_database_def Let_def
      map_add_self state_of_def)

lemma range_table_examples:
  "range_table ''10001'' = None" "range_table ''99501'' = Some ''AK''"
  by (simp_all add: range_table_def state_ranges_def in_range_def dec_val_def digit_val_def
      code_def str_nat.simps digit_of_def char_of_def bit_Suc_0_iff)

text \<open>
  Claim C4, as amended. The constructor never raises, and it populates the database from
  the source it picks in the order of priority: the explicit file if a path is given and
  exists, else the bundled file if it exists, else the synthesized range table. When
  reading the picked file fails, the loader does not go on to the next file: it lays the
  range table over whatever rows it had read.
\<close>

theorem init_source_priority:
  "init fs default_db_path path =
     Returned \<lparr>zip_to_state_map =
        (case chosen_source fs default_db_path path of
           External_file f \<Rightarrow>
             if csv_raises fs f then rows_loaded (csv_rows fs f) ++ range_table
             else rows_loaded (csv_rows fs f)
         | Bundled_file \<Rightarrow>
             if csv_raises fs default_db_path
             then rows_loaded (csv_rows fs default_db_path) ++ range_table
             else rows_loaded (csv_rows fs default_db_path)
         | Range_table \<Rightarrow> range_table),
       zip_database_path = path\<rparr>"
  by (simp add: init_def load_zip_database_def load_body_def load_from_csv_state
      create_initial_mapping_state chosen_source_def download_zip_database_def Let_def
      map_add_self)

theorem init_source_priority_witness:
  "init fs_no_files ''bundled.csv'' None
     = Returned \<lparr>zip_to_state_map = range_table, zip_database_path = None\<rparr>
   \<and> init fs_odd_rows ''bundled.csv'' (Some ''custom.csv'')
     = Returned \<lparr>zip_to_state_map = [''abc'' \<mapsto> ''xyz''],
                 zip_database_path = Some ''custom.csv''\<rparr>"
  using init_source_priority [of fs_no_files "''bundled.csv''" None]
    init_source_priority [of fs_odd_rows "''bundled.csv''" "Some ''custom.csv''"]
  by (simp add: chosen_source_def fs_no_files_def fs_odd_rows_def truthy_def rows_loaded_def
      List.map_filter_simps row_entry_def zip_column_def state_column_def py_or_def)

text \<open>
  Claim C4 as stated fails: the explicit file exists and cannot be read, the bundled file
  exists and reads well, with an entry for 10001; the database built is the range table,
  with Alaska's 99501 and without 10001.
\<close>

theorem init_failing_external_skips_bundled:
  "path_exists fs_failing_custom ''custom.csv'' \<and> csv_raises fs_failing_custom ''custom.csv''
   \<and> path_exists fs_failing_custom ''bundled.csv''
   \<and> \<not> csv_raises fs_failing_custom ''bundled.csv''
   \<and> rows_loaded (csv_rows fs_failing_custom ''bundled.csv'') ''10001'' = Some ''NY''
   \<and> zip_to_state_map
        (state_of (init fs_failing_custom ''bundled.csv'' (Some ''custom.csv''))) ''10001'' = None
   \<and> zip_to_state_map
        (state_of (init fs_failing_custom ''bundled.csv'' (Some ''custom.csv''))) ''99501''
       = Some ''AK''"
  by (simp add: init_state chosen_source_def fs_failing_custom_def truthy_def
      rows_loaded_def List.map_filter_simps row_entry_def zip_column_def state_column_def
      py_or_def range_table_examples map_add_def)

lemma map_filter_member:
  "y \<in> set (List.map_filter f xs) \<Longrightarrow> \<exists>x\<in>set xs. f x = Some y"
  by (auto simp: List.map_filter_def)

lemma row_entry_cells:
  "row_entry row = Some (k, v) \<Longrightarrow>
     zip_column row = Some k \<and> state_column row = Some v \<and> k \<noteq> [] \<and> v \<noteq> []"
  by (auto simp: row_entry_def truthy_def split: if_splits)

lemma rows_loaded_entry:
  assumes "rows_loaded rows k = Some v"
  shows "\<exists>row\<in>set rows. zip_column row = Some k \<and> state_column row = Some v
           \<and> k \<noteq> [] \<and> v \<noteq> []"
proof -
  from assms have "(k, v) \<in> set (List.map_filter row_entry rows)"
    by (auto simp: rows_loaded_def dest: map_of_SomeD)
  then obtain row where "row \<in> set rows" "row_entry row = Some (k, v)"
    by (auto dest: map_filter_member)
  then show ?thesis by (auto dest: row_entry_cells)
qed

text \<open>
  Claim C9, as amended. An entry of the loaded database either has a key of five digits
  and a value of two upper-case letters, or is made of the non-empty ZIP and state cells
  of a row of the picked file, taken as they are; when the range table is the source,
  every entry is of the first kind. A key has at most one state.
\<close>

theorem loaded_database_entries:
  "(\<forall>k v. zip_to_state_map (state_of (init fs default_db_path path)) k = Some v \<longrightarrow>
       (zip_base k \<and> state_abbr v)
       \<or> (\<exists>row\<in>set (chosen_rows fs default_db_path path).
             zip_column row = Some k \<and> state_column row = Some v \<and> k \<noteq> [] \<and> v \<noteq> []))
   \<and> (chosen_source fs default_db_path path = Range_table \<longrightarrow>
        (\<forall>k v. zip_to_state_map (state_of (init fs default_db_path path)) k = Some v \<longrightarrow>
           zip_base k \<and> state_abbr v))
   \<and> (\<forall>k v v'. zip_to_state_map (state_of (init fs default_db_path path)) k = Some v
         \<and> zip_to_state_map (state_of (init fs default_db_path path)) k = Some v'
         \<longrightarrow> v = v')"
proof (intro conjI allI impI)
  fix k v
  assume "zip_to_state_map (state_of (init fs default_db_path path)) k = Some v"
  then show "(zip_base k \<and> state_abbr v)
       \<or> (\<exists>row\<in>set (chosen_rows fs default_db_path path).
             zip_column row = Some k \<and> state_column row = Some v \<and> k \<noteq> [] \<and> v \<noteq> [])"
    by (cases "chosen_source fs default_db_path path")
       (auto simp: init_state chosen_rows_def map_add_def
          split: if_splits option.splits
          dest: range_table_entry dest!: rows_loaded_entry)
next
  fix k v
  assume "chosen_source fs default_db_path path = Range_table"
    and "zip_to_state_map (state_of (init fs default_db_path path)) k = Some v"
  then show "zip_base k" "state_abbr v"
    by (auto simp: init_state dest: range_table_entry)
qed auto

theorem loaded_database_entries_witness:
  "chosen_source fs_no_files ''bundled.csv'' None = Range_table
   \<and> zip_to_state_map (state_of (init fs_no_files ''bundled.csv'' None)) ''99501'' = Some ''AK''
   \<and> zip_base ''99501'' \<and> state_abbr ''AK''"
  using loaded_database_entries [of fs_no_files "''bundled.csv''" None]
  by (simp add: init_state chosen_source_def fs_no_files_def truthy_def
      range_table_examples zip_base_def state_abbr_def re_digit_def upper_char_def code_def)

text \<open>
  Claim C9 as stated fails: a row of the explicit file with the cells \<^verbatim>\<open>abc\<close> and \<^verbatim>\<open>xyz\<close> is
  loaded as it is, so the database has a key that is no ZIP base and a value that is no
  state abbreviation.
\<close>

theorem loaded_database_unvalidated_csv:
  "zip_to_state_map (state_of (init fs_odd_rows ''bundled.csv'' (Some ''custom.csv''))) ''abc''
     = Some ''xyz''
   \<and> \<not> zip_base ''abc'' \<and> \<not> state_abbr ''xyz''"
  by (simp add: init_state chosen_source_def fs_odd_rows_def truthy_def
      rows_loaded_def List.map_filter_simps row_entry_def zip_column_def state_column_def
      py_or_def zip_base_def state_abbr_def)

subsection \<open>The first pass: the matcher against positions in the text\<close>

lemma word_boundary_at:
  assumes "i \<le> length s"
  shows "word_boundary (prev_at s i) (drop i s) = boundary_at s i"
proof (cases "i < length s")
  case True
  then have d: "drop i s = s ! i # drop (Suc i) s" by (simp add: Cons_nth_drop_Suc)
  have "word_boundary (prev_at s i) (drop i s)
      = ((case prev_at s i of None \<Rightarrow> False | Some c \<Rightarrow> re_word c) \<noteq> re_word (s ! i))"
    by (subst d) (simp add: word_boundary_def)
  also have "\<dots> = boundary_at s i"
    using True by (cases "i = 0") (auto simp: prev_at_def boundary_at_def)
  finally show ?thesis .
next
  case False
  then have "drop i s = []" by simp
  then show ?thesis using False assms
    by (cases "i = 0") (auto simp: word_boundary_def prev_at_def boundary_at_def)
qed

lemma word_boundary_after:
  assumes "0 < j" "j \<le> length s"
  shows "word_boundary (Some (s ! (j - 1))) (drop j s) = boundary_at s j"
  using word_boundary_at[OF assms(2)] assms(1) by (simp add: prev_at_def)

lemma digits_prefix_drop:
  "i \<le> length s \<Longrightarrow>
   digits_prefix n (drop i s) \<longleftrightarrow> i + n \<le> length s \<and> list_all re_digit (take n (drop i s))"
  by (auto simp: digits_prefix_def)

lemma whole5_iff:
  "whole_word_zip s i 5 \<longleftrightarrow>
     boundary_at s i \<and> i + 5 \<le> length s \<and> list_all re_digit (take 5 (drop i s))
     \<and> boundary_at s (i + 5)"
  by (auto simp: whole_word_zip_def zip_format_def)

lemma whole10_iff:
  "whole_word_zip s i 10 \<longleftrightarrow>
     boundary_at s i \<and> i + 10 \<le> length s \<and> list_all re_digit (take 5 (drop i s))
     \<and> s ! (i + 5) = CHR ''-'' \<and> list_all re_digit (take 4 (drop (i + 6) s))
     \<and> boundary_at s (i + 10)"
proof (cases "i + 10 \<le> length s")
  case True
  then have "take 5 (take 10 (drop i s)) = take 5 (drop i s)"
    "take 10 (drop i s) ! 5 = s ! (i + 5)"
    "drop 6 (take 10 (drop i s)) = take 4 (drop (i + 6) s)"
    "length (take 10 (drop i s)) = 10"
    by (simp_all add: drop_take add.commute)
  then show ?thesis using True by (auto simp: whole_word_zip_def zip_format_def)
next
  case False
  then show ?thesis by (simp add: whole_word_zip_def)
qed

lemma long_group_iff:
  assumes "i + 5 \<le> length s"
  shows "(case drop 5 (drop i s) of [] \<Rightarrow> False
          | c # r' \<Rightarrow> c = CHR ''-'' \<and> digits_prefix 4 r'
                      \<and> word_boundary (Some (r' ! 3)) (drop 4 r'))
     \<longleftrightarrow> i + 10 \<le> length s \<and> s ! (i + 5) = CHR ''-''
          \<and> list_all re_digit (take 4 (drop (i + 6) s)) \<and> boundary_at s (i + 10)"
proof (cases "i + 5 < length s")
  case False
  then have "drop 5 (drop i s) = []" by simp
  then show ?thesis using False by simp
next
  case True
  then have d: "drop 5 (drop i s) = s ! (i + 5) # drop (i + 6) s"
    using Cons_nth_drop_Suc[of "i + 5" s] by (simp add: add.commute)
  have six: "i + 6 \<le> length s" using True by simp
  show ?thesis
  proof (cases "i + 10 \<le> length s")
    case False
    then show ?thesis unfolding d using six by (simp add: digits_prefix_drop)
  next
    case ten: True
    have "drop (i + 6) s ! 3 = s ! (i + 10 - 1)" using ten by (simp add: add.commute)
    moreover have "drop 4 (drop (i + 6) s) = drop (i + 10) s" by (simp add: add.commute)
    ultimately have "word_boundary (Some (drop (i + 6) s ! 3)) (drop 4 (drop (i + 6) s))
        = boundary_at s (i + 10)"
      using word_boundary_after[of "i + 10" s] ten by simp
    then show ?thesis unfolding d using six ten by (simp add: digits_prefix_drop)
  qed
qed

lemma zip_match_here_index:
  assumes "i \<le> length s"
  shows "zip_match_here (prev_at s i) (drop i s) =
     (if whole_word_zip s i 10 then Some 10
      else if whole_word_zip s i 5 then Some 5 else None)"
proof (cases "boundary_at s i \<and> i + 5 \<le> length s \<and> list_all re_digit (take 5 (drop i s))")
  case False
  then have "zip_match_here (prev_at s i) (drop i s) = None"
    using assms by (auto simp: zip_match_here_def word_boundary_at digits_prefix_drop)
  moreover have "\<not> whole_word_zip s i 10" "\<not> whole_word_zip s i 5"
    using False by (auto simp: whole10_iff whole5_iff)
  ultimately show ?thesis by simp
next
  case True
  then have five: "i + 5 \<le> length s" by simp
  have "drop i s ! 4 = s ! (i + 5 - 1)" using five by (simp add: add.commute)
  moreover have "drop 5 (drop i s) = drop (i + 5) s" by (simp add: add.commute)
  ultimately have short: "word_boundary (Some (drop i s ! 4)) (drop 5 (drop i s))
      = boundary_at s (i + 5)"
    using word_boundary_after[of "i + 5" s] five by simp
  have start: "word_boundary (prev_at s i) (drop i s) \<and> digits_prefix 5 (drop i s)"
    using True assms by (simp add: word_boundary_at digits_prefix_drop)
  show ?thesis
    unfolding zip_match_here_def Let_def
    using start True
    by (simp only: long_group_iff[OF five] short whole10_iff whole5_iff) auto
qed

lemma findall_zip_step:
  assumes "i < length s"
  shows "findall_zip p (drop i s) =
     (case zip_match_here p (drop i s) of
        Some n \<Rightarrow> take n (drop i s) # findall_zip (Some (drop i s ! (n - 1))) (drop n (drop i s))
      | None \<Rightarrow> findall_zip (Some (s ! i)) (drop (Suc i) s))"
proof -
  have d: "drop i s = s ! i # drop (Suc i) s" using assms by (simp add: Cons_nth_drop_Suc)
  have "findall_zip p (s ! i # drop (Suc i) s) =
     (case zip_match_here p (s ! i # drop (Suc i) s) of
        Some n \<Rightarrow> take n (s ! i # drop (Suc i) s)
                  # findall_zip (Some ((s ! i # drop (Suc i) s) ! (n - 1)))
                      (drop n (s ! i # drop (Suc i) s))
      | None \<Rightarrow> findall_zip (Some (s ! i)) (drop (Suc i) s))"
    by (rule findall_zip.simps(2))
  then show ?thesis unfolding d[symmetric] .
qed

lemma findall_zip_index:
  "i \<le> length s \<Longrightarrow> findall_zip (prev_at s i) (drop i s) = first_pass_from s i"
proof (induction s i rule: first_pass_from.induct)
  case (1 s i)
  show ?case
  proof (cases "length s \<le> i")
    case True
    then show ?thesis by (simp add: first_pass_from.simps[of s i])
  next
    case False
    then have lt: "i < length s" by simp
    note step = findall_zip_step[OF lt, of "prev_at s i"]
    note m = zip_match_here_index[OF "1.prems"]
    consider (long) "whole_word_zip s i 10"
      | (short) "\<not> whole_word_zip s i 10" "whole_word_zip s i 5"
      | (none) "\<not> whole_word_zip s i 10" "\<not> whole_word_zip s i 5"
      by blast
    then show ?thesis
    proof cases
      case long
      then have len: "i + 10 \<le> length s" by (simp add: whole_word_zip_def)
      have "drop i s ! (10 - 1) = s ! (i + 10 - 1)" using len by (simp add: add.commute)
      then have p: "Some (drop i s ! (10 - 1)) = prev_at s (i + 10)" by (simp add: prev_at_def)
      have dd: "drop 10 (drop i s) = drop (i + 10) s" by (simp add: add.commute)
      have "findall_zip (prev_at s i) (drop i s)
          = take 10 (drop i s) # findall_zip (prev_at s (i + 10)) (drop (i + 10) s)"
        unfolding step m using long by (simp only: if_True option.case p dd)
      also have "findall_zip (prev_at s (i + 10)) (drop (i + 10) s) = first_pass_from s (i + 10)"
        using "1.IH"(1)[OF False long len] .
      finally show ?thesis using False long by (simp add: first_pass_from.simps[of s i])
    next
      case short
      then have len: "i + 5 \<le> length s" by (simp add: whole_word_zip_def)
      have "drop i s ! (5 - 1) = s ! (i + 5 - 1)" using len by (simp add: add.commute)
      then have p: "Some (drop i s ! (5 - 1)) = prev_at s (i + 5)" by (simp add: prev_at_def)
      have dd: "drop 5 (drop i s) = drop (i + 5) s" by (simp add: add.commute)
      have "findall_zip (prev_at s i) (drop i s)
          = take 5 (drop i s) # findall_zip (prev_at s (i + 5)) (drop (i + 5) s)"
        unfolding step m using short by (simp only: if_True if_False option.case p dd)
      also have "findall_zip (prev_at s (i + 5)) (drop (i + 5) s) = first_pass_from s (i + 5)"
        using "1.IH"(2)[OF False short len] .
      finally show ?thesis using False short by (simp add: first_pass_from.simps[of s i])
    next
      case none
      have len: "i + 1 \<le> length s" using lt by simp
      have p: "Some (s ! i) = prev_at s (i + 1)" by (simp add: prev_at_def)
      have "findall_zip (prev_at s i) (drop i s)
          = findall_zip (prev_at s (i + 1)) (drop (i + 1) s)"
        unfolding step m using none by (simp only: if_False option.case p Suc_eq_plus1)
      also have "\<dots> = first_pass_from s (i + 1)"
        using "1.IH"(3)[OF False none len] .
      finally show ?thesis using False none by (simp add: first_pass_from.simps[of s i])
    qed
  qed
qed

lemma re_findall_zip_first_pass: "re_findall_zip s = first_pass s"
  using findall_zip_index[of 0 s] by (simp add: re_findall_zip_def first_pass_def prev_at_def)

lemma first_pass_from_format:
  "z \<in> set (first_pass_from s i) \<Longrightarrow> zip_format z"
proof (induction s i rule: first_pass_from.induct)
  case (1 s i)
  show ?case
  proof (cases "length s \<le> i")
    case True
    then show ?thesis using "1.prems" by (simp add: first_pass_from.simps[of s i])
  next
    case False
    consider (long) "whole_word_zip s i 10"
      | (short) "\<not> whole_word_zip s i 10" "whole_word_zip s i 5"
      | (none) "\<not> whole_word_zip s i 10" "\<not> whole_word_zip s i 5"
      by blast
    then show ?thesis
    proof cases
      case long
      then have "z = take 10 (drop i s) \<or> z \<in> set (first_pass_from s (i + 10))"
        using "1.prems" False by (simp add: first_pass_from.simps[of s i])
      then show ?thesis using long "1.IH"(1)[OF False long]
        by (auto simp: whole_word_zip_def)
    next
      case short
      then have "z = take 5 (drop i s) \<or> z \<in> set (first_pass_from s (i + 5))"
        using "1.prems" False by (simp add: first_pass_from.simps[of s i])
      then show ?thesis using short "1.IH"(2)[OF False short]
        by (auto simp: whole_word_zip_def)
    next
      case none
      then have "z \<in> set (first_pass_from s (i + 1))"
        using "1.prems" False by (simp add: first_pass_from.simps[of s i])
      then show ?thesis using "1.IH"(3)[OF False none] by simp
    qed
  qed
qed

lemma concat_re_split_seps:
  "concat (re_split_seps s) = filter (\<lambda>c. \<not> split_sep c) s"
proof (induction "length s" arbitrary: s rule: less_induct)
  case less
  let ?tok = "takeWhile (\<lambda>c. \<not> split_sep c) s"
  let ?rest = "dropWhile (\<lambda>c. \<not> split_sep c) s"
  have s: "s = ?tok @ ?rest" by simp
  have tok: "filter (\<lambda>c. \<not> split_sep c) ?tok = ?tok"
    by (auto simp: filter_id_conv dest: set_takeWhileD)
  show ?case
  proof (cases "?rest = []")
    case True
    then have "filter (\<lambda>c. \<not> split_sep c) s = ?tok" using s tok by (metis append_Nil2)
    then show ?thesis using True by (simp add: re_split_seps_last)
  next
    case False
    let ?seps = "takeWhile split_sep ?rest"
    let ?next = "dropWhile split_sep ?rest"
    have "filter (\<lambda>c. \<not> split_sep c) ?seps = []"
      by (auto simp: filter_empty_conv dest: set_takeWhileD)
    moreover have "?rest = ?seps @ ?next" by simp
    ultimately have "filter (\<lambda>c. \<not> split_sep c) ?rest = filter (\<lambda>c. \<not> split_sep c) ?next"
      by (metis filter_append self_append_conv2)
    then have "filter (\<lambda>c. \<not> split_sep c) s = ?tok @ filter (\<lambda>c. \<not> split_sep c) ?next"
      using s tok by (metis filter_append)
    moreover have "concat (re_split_seps ?next) = filter (\<lambda>c. \<not> split_sep c) ?next"
      by (rule less.hyps) (rule length_after_separators[OF False])
    ultimately show ?thesis by (simp add: re_split_seps_more[OF False])
  qed
qed

text \<open>
  Claim C2. For a text, the candidates are those of the first pass, every whole-word
  substring of the format of a ZIP code in the order of occurrence, when there is one;
  otherwise they are the tokens between the runs of commas, semicolons and whitespace
  that \<^verbatim>\<open>isdigit\<close> accepts. The tokens hold no separator and, put together, are the text
  without its separators. The loop goes through the candidates from first to last.
\<close>

theorem process_zip_codes_two_passes:
  "candidates (Text s) =
     (if first_pass s \<noteq> [] then first_pass s else filter isdigit (re_split_seps s))
   \<and> process_zip_codes self (Text s) = fst (classify self (candidates (Text s)) ([], []))
   \<and> (\<forall>z\<in>set (first_pass s). zip_format z)
   \<and> (\<forall>t\<in>set (re_split_seps s). \<forall>c\<in>set t. \<not> split_sep c)
   \<and> concat (re_split_seps s) = filter (\<lambda>c. \<not> split_sep c) s"
proof (intro conjI)
  show "candidates (Text s) =
     (if first_pass s \<noteq> [] then first_pass s else filter isdigit (re_split_seps s))"
    by (simp add: candidates_def re_findall_zip_first_pass fallback_tokens_filter)
  show "process_zip_codes self (Text s) = fst (classify self (candidates (Text s)) ([], []))"
    by (simp add: process_zip_codes_def)
  show "\<forall>z\<in>set (first_pass s). zip_format z"
    by (auto simp: first_pass_def dest: first_pass_from_format)
  show "\<forall>t\<in>set (re_split_seps s). \<forall>c\<in>set t. \<not> split_sep c"
    using split_tokens_no_sep by blast
  show "concat (re_split_seps s) = filter (\<lambda>c. \<not> split_sep c) s"
    by (rule concat_re_split_seps)
qed

lemma first_pass_example: "first_pass ''99501, 98101-1234;x'' = [''99501'', ''98101-1234'']"
  by (simp add: first_pass_def first_pass_from.simps whole_word_zip_def zip_format_def
      boundary_at_def re_word_def re_digit_def code_def)

lemma split_example: "re_split_seps ''1234, ab;123456'' = [''1234'', ''ab'', ''123456'']"
  by (simp add: re_split_seps_more re_split_seps_last split_sep_def re_space_def code_def)

theorem process_zip_codes_two_passes_witness:
  "first_pass ''99501, 98101-1234;x'' \<noteq> []
   \<and> candidates (Text ''99501, 98101-1234;x'') = [''99501'', ''98101-1234'']
   \<and> zip_format ''98101-1234''
   \<and> first_pass ''1234, ab;123456'' = []
   \<and> candidates (Text ''1234, ab;123456'') = [''1234'', ''123456'']
   \<and> ''ab'' \<in> set (re_split_seps ''1234, ab;123456'') \<and> \<not> split_sep CHR ''a''"
  using process_zip_codes_two_passes [of "''99501, 98101-1234;x''" self]
    process_zip_codes_two_passes [of "''1234, ab;123456''" self]
  by (simp add: first_pass_example split_example isdigit_def digit_char_def re_digit_def code_def
      first_pass_def first_pass_from.simps whole_word_zip_def zip_format_def boundary_at_def
      re_word_def split_sep_def re_space_def)

subsection \<open>\<^verbatim>\<open>process_zip_codes\<close>: no hidden state\<close>

lemma logger_warning_fields:
  "mapper_obj (logger_warning msg w) = mapper_obj w"
  "log_records (logger_warning msg w) = log_records w @ [(Warning, msg)]"
  by (simp_all add: logger_warning_def)

lemma run_loop_obj: "mapper_obj (snd (run_loop zs acc w)) = mapper_obj w"
proof (induction zs acc w rule: run_loop.induct)
  case (1 acc w)
  show ?case by simp
next
  case (2 zip_code rest result invalid_zips w)
  then show ?case
    by (simp add: logger_warning_fields split: option.splits)
qed

lemma run_loop_log:
  "\<exists>ms. log_records (snd (run_loop zs acc w)) = log_records w @ ms"
proof (induction zs acc w rule: run_loop.induct)
  case (1 acc w)
  show ?case by simp
next
  case (2 zip_code rest result invalid_zips w)
  then show ?case
    by (auto simp: logger_warning_fields split: option.splits)
qed

lemma run_loop_result:
  "fst (run_loop zs acc w) = classify (mapper_obj w) zs acc"
proof (induction zs acc w rule: run_loop.induct)
  case (1 acc w)
  show ?case by simp
next
  case (2 zip_code rest result invalid_zips w)
  then show ?case
    by (simp add: logger_warning_fields split: option.splits)
qed

lemma call_unfold:
  "call_process_zip_codes zip_codes w =
     (fst (fst (run_loop (candidates zip_codes) ([], []) w)),
      if snd (fst (run_loop (candidates zip_codes) ([], []) w)) \<noteq> []
      then logger_warning
             (''Unprocessed ZIP codes: ''
                @ py_join '', '' (snd (fst (run_loop (candidates zip_codes) ([], []) w))))
             (snd (run_loop (candidates zip_codes) ([], []) w))
      else snd (run_loop (candidates zip_codes) ([], []) w))"
  by (simp add: call_process_zip_codes_def split: prod.splits)

lemma call_result:
  "fst (call_process_zip_codes zip_codes w) = process_zip_codes (mapper_obj w) zip_codes"
  by (simp add: call_unfold run_loop_result process_zip_codes_def)

lemma call_obj:
  "mapper_obj (snd (call_process_zip_codes zip_codes w)) = mapper_obj w"
  by (simp add: call_unfold run_loop_obj logger_warning_fields)

lemma call_log:
  "\<exists>ms. log_records (snd (call_process_zip_codes zip_codes w)) = log_records w @ ms"
  using run_loop_log[of "candidates zip_codes" "([], [])" w]
  by (auto simp: call_unfold logger_warning_fields)

lemma validate_zip_code_database:
  "zip_to_state_map self' = zip_to_state_map self \<Longrightarrow>
   validate_zip_code self' z = validate_zip_code self z"
  by (simp add: validate_zip_code_def)

lemma get_state_for_zip_database:
  "zip_to_state_map self' = zip_to_state_map self \<Longrightarrow>
   get_state_for_zip self' z = get_state_for_zip self z"
  by (simp add: get_state_for_zip_def)

lemma classify_database:
  "zip_to_state_map self' = zip_to_state_map self \<Longrightarrow>
   classify self' zs acc = classify self zs acc"
proof (induction zs arbitrary: acc)
  case Nil
  show ?case by simp
next
  case (Cons z zs)
  obtain r iv where acc: "acc = (r, iv)" by (cases acc)
  show ?case unfolding acc
    by (simp add: validate_zip_code_database[OF Cons.prems]
        get_state_for_zip_database[OF Cons.prems] Cons.IH[OF Cons.prems]
        split: option.splits)
qed

text \<open>
  Claim C8. A call of \<^verbatim>\<open>process_zip_codes\<close> leaves the classifier, and so its database, as
  it was; what it changes is the log, which only grows. The grouping it returns depends on
  the database and the input alone: a second call with the same input, made in the world
  the first call left, returns the same grouping, keys and sequences in the same order,
  and so does a call in any world whose classifier holds the same database.
\<close>

theorem process_zip_codes_no_mutation:
  "mapper_obj (snd (call_process_zip_codes zip_codes w)) = mapper_obj w
   \<and> (\<exists>ms. log_records (snd (call_process_zip_codes zip_codes w)) = log_records w @ ms)
   \<and> fst (call_process_zip_codes zip_codes (snd (call_process_zip_codes zip_codes w)))
       = fst (call_process_zip_codes zip_codes w)
   \<and> (zip_to_state_map (mapper_obj w') = zip_to_state_map (mapper_obj w) \<longrightarrow>
        fst (call_process_zip_codes zip_codes w') = fst (call_process_zip_codes zip_codes w))"
proof (intro conjI impI)
  show "mapper_obj (snd (call_process_zip_codes zip_codes w)) = mapper_obj w"
    by (rule call_obj)
  show "\<exists>ms. log_records (snd (call_process_zip_codes zip_codes w)) = log_records w @ ms"
    by (rule call_log)
  show "fst (call_process_zip_codes zip_codes (snd (call_process_zip_codes zip_codes w)))
       = fst (call_process_zip_codes zip_codes w)"
    by (simp add: call_result call_obj)
next
  assume same: "zip_to_state_map (mapper_obj w') = zip_to_state_map (mapper_obj w)"
  show "fst (call_process_zip_codes zip_codes w') = fst (call_process_zip_codes zip_codes w)"
    by (simp add: call_result process_zip_codes_def classify_database[OF same])
qed

theorem process_zip_codes_no_mutation_witness:
  "call_process_zip_codes (Zips [''99501'', ''abc12'']) ak_world
     = ([(''AK'', [''99501''])],
        \<lparr>mapper_obj = ak_mapper,
         log_records = [(Warning, ''Invalid ZIP code format: abc12''),
                        (Warning, ''Unprocessed ZIP codes: abc12'')]\<rparr>)
   \<and> zip_to_state_map (mapper_obj (snd (call_process_zip_codes (Zips [''99501'', ''abc12'']) ak_world)))
       = zip_to_state_map (mapper_obj ak_world)
   \<and> fst (call_process_zip_codes (Zips [''99501'', ''abc12''])
            (snd (call_process_zip_codes (Zips [''99501'', ''abc12'']) ak_world)))
       = [(''AK'', [''99501''])]"
  using process_zip_codes_no_mutation
    [of "Zips [''99501'', ''abc12'']" ak_world
        "snd (call_process_zip_codes (Zips [''99501'', ''abc12'']) ak_world)"]
  by (simp add: call_process_zip_codes_def ak_world_def candidates_def logger_warning_def
      validate_zip_code_def zip_pattern_match_def digits_prefix_def at_dollar_def re_digit_def
      code_def get_state_for_zip_def ak_mapper_def setdefault_empty_def)

end
